theory Spec2Isabelle
  imports Main "HOL-Library.List_Lexorder"
begin

unbundle bit_operations_syntax

section \<open>Python strings\<close>

text \<open>
  A Python \<open>str\<close> is a sequence of Unicode code points. A code point is modelled as a
  natural number and a string as a list of them; ASCII literals of the source are written
  with \<open>lit\<close>. Byte strings are lists of naturals below 256.
\<close>

type_synonym str = "nat list"

definition lit :: "string \<Rightarrow> str" where
  "lit s = map of_char s"

text \<open>\<open>str.isspace\<close> for one code point: the Unicode white space that \<open>strip\<close> removes.\<close>

definition is_space :: "nat \<Rightarrow> bool" where
  "is_space c \<longleftrightarrow>
     (9 \<le> c \<and> c \<le> 13) \<or> (28 \<le> c \<and> c \<le> 32) \<or> c = 133 \<or> c = 160 \<or> c = 5760 \<or>
     (8192 \<le> c \<and> c \<le> 8202) \<or> c = 8232 \<or> c = 8233 \<or> c = 8239 \<or> c = 8287 \<or> c = 12288"

definition lstrip :: "str \<Rightarrow> str" where
  "lstrip s = dropWhile is_space s"

definition rstrip :: "str \<Rightarrow> str" where
  "rstrip s = rev (dropWhile is_space (rev s))"

definition strip :: "str \<Rightarrow> str" where
  "strip s = rstrip (lstrip s)"

text \<open>\<open>s.rstrip(chars)\<close>: trailing code points that occur in \<open>chars\<close> are removed.\<close>

definition rstrip_chars :: "str \<Rightarrow> str \<Rightarrow> str" where
  "rstrip_chars chars s = rev (dropWhile (\<lambda>c. c \<in> set chars) (rev s))"

definition startswith :: "str \<Rightarrow> str \<Rightarrow> bool" where
  "startswith s p \<longleftrightarrow> take (length p) s = p"

text \<open>\<open>sep.join(xs)\<close>\<close>

fun join :: "str \<Rightarrow> str list \<Rightarrow> str" where
  "join sep [] = []"
| "join sep [x] = x"
| "join sep (x # y # ys) = x @ sep @ join sep (y # ys)"

text \<open>
  \<open>str.splitlines()\<close>: the line boundaries are LF, VT, FF, CR, CR LF (one boundary), FS,
  GS, RS, NEL, LS and PS; the boundaries are not kept and a final boundary opens no
  further line.
\<close>

definition is_linebreak :: "nat \<Rightarrow> bool" where
  "is_linebreak c \<longleftrightarrow>
     (10 \<le> c \<and> c \<le> 13) \<or> (28 \<le> c \<and> c \<le> 30) \<or> c = 133 \<or> c = 8232 \<or> c = 8233"

fun splitlines_from :: "str \<Rightarrow> str \<Rightarrow> str list" where
  "splitlines_from cur [] = (if cur = [] then [] else [cur])"
| "splitlines_from cur (c # cs) =
     (case cs of
        [] \<Rightarrow> if is_linebreak c then [cur] else [cur @ [c]]
      | d # ds \<Rightarrow>
          if c = 13 \<and> d = 10 then cur # splitlines_from [] ds
          else if is_linebreak c then cur # splitlines_from [] cs
          else splitlines_from (cur @ [c]) cs)"

definition splitlines :: "str \<Rightarrow> str list" where
  "splitlines text = splitlines_from [] text"

text \<open>\<open>str(n)\<close> for an integer: the decimal digits, with a minus sign when negative.\<close>

fun str_nat :: "nat \<Rightarrow> str" where
  "str_nat n = (if n < 10 then [48 + n] else str_nat (n div 10) @ [48 + n mod 10])"

declare str_nat.simps [simp del]

definition str_int :: "int \<Rightarrow> str" where
  "str_int i = (if i < 0 then 45 # str_nat (nat (- i)) else str_nat (nat i))"

section \<open>UTF-8 and SHA-1\<close>

datatype error =
    ValueError
  | UnicodeEncodeError
  | RequestException
  | HTTPError nat
  | JSONDecodeError
  | AttributeError
  | RuntimeError
  | TypeError
  | KeyError

text \<open>
  \<open>s.encode("utf-8")\<close>: a surrogate code point cannot be encoded and raises
  \<open>UnicodeEncodeError\<close>; numbers from \<open>0x110000\<close> on are no code points.
\<close>

definition utf8_char :: "nat \<Rightarrow> nat list option" where
  "utf8_char c =
     (if c < 0x80 then Some [c]
      else if c < 0x800 then Some [0xC0 + c div 64, 0x80 + c mod 64]
      else if 0xD800 \<le> c \<and> c < 0xE000 then None
      else if c < 0x10000 then
        Some [0xE0 + c div 4096, 0x80 + c div 64 mod 64, 0x80 + c mod 64]
      else if c < 0x110000 then
        Some [0xF0 + c div 262144, 0x80 + c div 4096 mod 64, 0x80 + c div 64 mod 64,
              0x80 + c mod 64]
      else None)"

fun encode_utf8 :: "str \<Rightarrow> nat list option" where
  "encode_utf8 [] = Some []"
| "encode_utf8 (c # cs) =
     (case utf8_char c of
        None \<Rightarrow> None
      | Some bs \<Rightarrow> (case encode_utf8 cs of None \<Rightarrow> None | Some rest \<Rightarrow> Some (bs @ rest)))"

text \<open>
  \<open>hashlib.sha1\<close>, after FIPS 180-4. A 32-bit word is a natural number below \<open>2 ^ 32\<close>;
  addition wraps and rotation is within 32 bits.
\<close>

definition rotl32 :: "nat \<Rightarrow> nat \<Rightarrow> nat" where
  "rotl32 n x = (push_bit n x mod 2 ^ 32) OR drop_bit (32 - n) x"

definition add32 :: "nat \<Rightarrow> nat \<Rightarrow> nat" where
  "add32 x y = (x + y) mod 2 ^ 32"

definition not32 :: "nat \<Rightarrow> nat" where
  "not32 x = 4294967295 - x"

definition be32 :: "nat \<Rightarrow> nat list" where
  "be32 x = [drop_bit 24 x mod 256, drop_bit 16 x mod 256, drop_bit 8 x mod 256, x mod 256]"

definition be64 :: "nat \<Rightarrow> nat list" where
  "be64 x = be32 (drop_bit 32 x mod 2 ^ 32) @ be32 (x mod 2 ^ 32)"

definition sha1_pad :: "nat list \<Rightarrow> nat list" where
  "sha1_pad m =
     m @ [128] @ replicate ((119 - length m mod 64) mod 64) 0 @ be64 (8 * length m)"

fun be_words :: "nat list \<Rightarrow> nat list" where
  "be_words (a # b # c # d # bs) = (((a * 256 + b) * 256 + c) * 256 + d) # be_words bs"
| "be_words _ = []"

text \<open>
  The message schedule, newest word first: word \<open>t\<close> is made of the words \<open>t - 3\<close>,
  \<open>t - 8\<close>, \<open>t - 14\<close> and \<open>t - 16\<close>.
\<close>

fun schedule :: "nat \<Rightarrow> nat list \<Rightarrow> nat list" where
  "schedule 0 rws = rws"
| "schedule (Suc n) rws =
     schedule n (rotl32 1 (rws ! 2 XOR rws ! 7 XOR rws ! 13 XOR rws ! 15) # rws)"

definition expand :: "nat list \<Rightarrow> nat list" where
  "expand ws = rev (schedule 64 (rev ws))"

definition sha1_f :: "nat \<Rightarrow> nat \<Rightarrow> nat \<Rightarrow> nat \<Rightarrow> nat" where
  "sha1_f t b c d =
     (if t < 20 then (b AND c) OR (not32 b AND d)
      else if t < 40 then b XOR c XOR d
      else if t < 60 then (b AND c) OR (b AND d) OR (c AND d)
      else b XOR c XOR d)"

definition sha1_k :: "nat \<Rightarrow> nat" where
  "sha1_k t =
     (if t < 20 then 0x5A827999
      else if t < 40 then 0x6ED9EBA1
      else if t < 60 then 0x8F1BBCDC
      else 0xCA62C1D6)"

type_synonym sha1_state = "nat \<times> nat \<times> nat \<times> nat \<times> nat"

fun sha1_rounds :: "nat \<Rightarrow> nat list \<Rightarrow> sha1_state \<Rightarrow> sha1_state" where
  "sha1_rounds t [] s = s"
| "sha1_rounds t (w # ws) (a, b, c, d, e) =
     sha1_rounds (t + 1) ws
       (add32 (add32 (add32 (add32 (rotl32 5 a) (sha1_f t b c d)) e) (sha1_k t)) w,
        a, rotl32 30 b, c, d)"

fun add5 :: "sha1_state \<Rightarrow> sha1_state \<Rightarrow> sha1_state" where
  "add5 (h0, h1, h2, h3, h4) (a, b, c, d, e) =
     (add32 h0 a, add32 h1 b, add32 h2 c, add32 h3 d, add32 h4 e)"

definition sha1_block :: "sha1_state \<Rightarrow> nat list \<Rightarrow> sha1_state" where
  "sha1_block h blk = add5 h (sha1_rounds 0 (expand (be_words blk)) h)"

fun sha1_blocks :: "sha1_state \<Rightarrow> nat list \<Rightarrow> sha1_state" where
  "sha1_blocks h [] = h"
| "sha1_blocks h (b # bs) = sha1_blocks (sha1_block h (take 64 (b # bs))) (drop 64 (b # bs))"

definition sha1 :: "nat list \<Rightarrow> nat list" where
  "sha1 m =
     (case sha1_blocks (0x67452301, 0xEFCDAB89, 0x98BADCFE, 0x10325476, 0xC3D2E1F0) (sha1_pad m)
      of (a, b, c, d, e) \<Rightarrow> be32 a @ be32 b @ be32 c @ be32 d @ be32 e)"

text \<open>\<open>hexdigest()\<close>: two lower-case hexadecimal digits for each byte.\<close>

definition hex_digit :: "nat \<Rightarrow> nat" where
  "hex_digit n = (if n < 10 then 48 + n else 87 + n)"

definition hexdigest :: "nat list \<Rightarrow> str" where
  "hexdigest bs = concat (map (\<lambda>b. [hex_digit (b div 16), hex_digit (b mod 16)]) bs)"

section \<open>Paths\<close>

text \<open>
  A \<open>pathlib\<close> path is modelled by its parts; the root of an absolute POSIX path is the
  part \<open>/\<close>, or \<open>//\<close> for a path that starts with exactly two slashes. \<open>relative_to\<close> raises \<open>ValueError\<close> unless the other path is a prefix.
\<close>

type_synonym path = "str list"

definition is_absolute :: "path \<Rightarrow> bool" where
  "is_absolute p \<longleftrightarrow> (case p of [] \<Rightarrow> False | r # _ \<Rightarrow> r = lit ''/'' \<or> r = lit ''//'')"

definition relative_to :: "path \<Rightarrow> path \<Rightarrow> error + path" where
  "relative_to p other =
     (if other = [] then (if is_absolute p then Inl ValueError else Inr p)
      else if take (length other) p = other then Inr (drop (length other) p)
      else Inl ValueError)"

definition as_posix :: "path \<Rightarrow> str" where
  "as_posix p =
     (if p = [] then lit ''.''
      else if is_absolute p then hd p @ join (lit ''/'') (tl p)
      else join (lit ''/'') p)"

section \<open>Cards and the stable identifier\<close>

text \<open>The dataclass \<open>Card\<close>; its field \<open>back\<close> is \<open>back_txt\<close> here.\<close>

record card =
  deck :: str
  front :: str
  back_txt :: str
  tags :: "str list"
  stable_tag :: str

text \<open>
  The identifier of a relative path, an ordinal and a question: the first twelve
  hexadecimal digits of the SHA-1 digest of \<open>rel||ordinal||question\<close> in UTF-8.
\<close>

definition id_raw :: "str \<Rightarrow> int \<Rightarrow> str \<Rightarrow> str" where
  "id_raw rel ordinal question = rel @ lit ''||'' @ str_int ordinal @ lit ''||'' @ question"

definition id_of_raw :: "str \<Rightarrow> error + str" where
  "id_of_raw raw =
     (case encode_utf8 raw of
        None \<Rightarrow> Inl UnicodeEncodeError
      | Some bytes \<Rightarrow> Inr (lit ''ankivert_id_'' @ take 12 (hexdigest (sha1 bytes))))"

definition stable_id_tag :: "path \<Rightarrow> path \<Rightarrow> str \<Rightarrow> int \<Rightarrow> error + str" where
  "stable_id_tag vault_root md_path question ordinal =
     (case relative_to md_path vault_root of
        Inl e \<Rightarrow> Inl e
      | Inr rel \<Rightarrow> id_of_raw (id_raw (as_posix rel) ordinal question))"

section \<open>The scanner\<close>

text \<open>
  The local variables of \<open>extract_cards_from_markdown\<close>; \<open>q_cur\<close> is the variable \<open>q\<close>
  (\<open>None\<close> before the first question).
\<close>

record scan_state =
  cards :: "card list"
  q_cur :: "str option"
  a_lines :: "str list"
  in_answer :: bool
  ordinal :: int

definition scan_init :: scan_state where
  "scan_init = \<lparr>cards = [], q_cur = None, a_lines = [], in_answer = False, ordinal = 0\<rparr>"

text \<open>The flush of a complete card, before a new question and at the end of the input.\<close>

definition flush :: "path \<Rightarrow> path \<Rightarrow> str \<Rightarrow> str list \<Rightarrow> scan_state \<Rightarrow> error + card list" where
  "flush vault_root md_path dk base_tags s =
     (case q_cur s of
        None \<Rightarrow> Inr (cards s)
      | Some qq \<Rightarrow>
          if a_lines s = [] then Inr (cards s)
          else (case stable_id_tag vault_root md_path qq (ordinal s) of
                  Inl e \<Rightarrow> Inl e
                | Inr tag \<Rightarrow>
                    Inr (cards s @
                      [\<lparr>deck = dk, front = qq, back_txt = strip (join (lit ''\<newline>'') (a_lines s)),
                        tags = base_tags @ [tag], stable_tag = tag\<rparr>])))"

text \<open>One iteration of the loop over the lines.\<close>

definition scan_line ::
  "path \<Rightarrow> path \<Rightarrow> str \<Rightarrow> str list \<Rightarrow> scan_state \<Rightarrow> str \<Rightarrow> error + scan_state" where
  "scan_line vault_root md_path dk base_tags s raw =
     (let line = rstrip_chars (lit ''\<newline>'') raw in
      if startswith line (lit ''Q::'') then
        (case flush vault_root md_path dk base_tags s of
           Inl e \<Rightarrow> Inl e
         | Inr cs \<Rightarrow>
             Inr \<lparr>cards = cs, q_cur = Some (strip (drop (length (lit ''Q::'')) line)),
                  a_lines = [], in_answer = False, ordinal = ordinal s + 1\<rparr>)
      else if startswith line (lit ''A::'') \<and> q_cur s \<noteq> None then
        (let rest = lstrip (drop (length (lit ''A::'')) line) in
         Inr (s\<lparr>in_answer := True,
                a_lines := (if rest \<noteq> [] then a_lines s @ [rest] else a_lines s)\<rparr>))
      else if in_answer s \<and> q_cur s \<noteq> None then Inr (s\<lparr>a_lines := a_lines s @ [line]\<rparr>)
      else Inr s)"

fun scan_lines ::
  "path \<Rightarrow> path \<Rightarrow> str \<Rightarrow> str list \<Rightarrow> scan_state \<Rightarrow> str list \<Rightarrow> error + scan_state" where
  "scan_lines vault_root md_path dk base_tags s [] = Inr s"
| "scan_lines vault_root md_path dk base_tags s (raw # rest) =
     (case scan_line vault_root md_path dk base_tags s raw of
        Inl e \<Rightarrow> Inl e
      | Inr s' \<Rightarrow> scan_lines vault_root md_path dk base_tags s' rest)"

text \<open>
  \<open>extract_cards_from_markdown\<close>, from the text that \<open>read_text\<close> returned for \<open>md_path\<close>.
\<close>

definition extract_cards_from_markdown ::
  "path \<Rightarrow> path \<Rightarrow> str \<Rightarrow> str list \<Rightarrow> str \<Rightarrow> error + card list" where
  "extract_cards_from_markdown vault_root md_path dk base_tags text =
     (case scan_lines vault_root md_path dk base_tags scan_init (splitlines text) of
        Inl e \<Rightarrow> Inl e
      | Inr s \<Rightarrow> flush vault_root md_path dk base_tags s)"

section \<open>The AnkiConnect client\<close>

text \<open>
  Decoded JSON: \<open>None\<close>, booleans, integers, strings, lists and dictionaries (as
  association lists in the order of the text; for a repeated key the last entry counts).
  Numbers with a fraction are left out.
\<close>

datatype json =
    JNull
  | JBool bool
  | JInt int
  | JStr str
  | JList "json list"
  | JObj "(str \<times> json) list"

text \<open>The truth value of a Python object, as \<open>if x\<close>, \<open>not x\<close> and \<open>x or y\<close> take it.\<close>

fun truthy :: "json \<Rightarrow> bool" where
  "truthy JNull = False"
| "truthy (JBool b) = b"
| "truthy (JInt n) = (n \<noteq> 0)"
| "truthy (JStr s) = (s \<noteq> [])"
| "truthy (JList xs) = (xs \<noteq> [])"
| "truthy (JObj kvs) = (kvs \<noteq> [])"

text \<open>\<open>d.get(k)\<close>: \<open>None\<close> for a missing key.\<close>

definition dict_get :: "(str \<times> json) list \<Rightarrow> str \<Rightarrow> json" where
  "dict_get kvs k = (case map_of (rev kvs) k of None \<Rightarrow> JNull | Some v \<Rightarrow> v)"

definition ANKI_CONNECT_VERSION :: int where
  "ANKI_CONNECT_VERSION = 6"

record request =
  action :: str
  version :: int
  params :: json

text \<open>
  What \<open>requests.post\<close> gives back: no reply at all (the connection failed or timed out,
  and \<open>post\<close> raises), or a reply with its status code and its body, decoded if it is JSON.
\<close>

datatype reply = NoReply | Reply nat "json option"

text \<open>
  The path of \<open>ankiconnect\<close> from the reply to its result. \<open>raise_for_status\<close> of the
  \<open>requests\<close> library raises for the status codes 400 to 599; \<open>r.json()\<close> raises when
  the body is not JSON; \<open>data.get\<close> exists on dictionaries only.
\<close>

definition reply_result :: "reply \<Rightarrow> error + json" where
  "reply_result rep =
     (case rep of
        NoReply \<Rightarrow> Inl RequestException
      | Reply st body \<Rightarrow>
          if 400 \<le> st \<and> st < 600 then Inl (HTTPError st)
          else (case body of
                  None \<Rightarrow> Inl JSONDecodeError
                | Some (JObj kvs) \<Rightarrow>
                    if truthy (dict_get kvs (lit ''error'')) then Inl RuntimeError
                    else Inr (dict_get kvs (lit ''result''))
                | Some _ \<Rightarrow> Inl AttributeError))"

text \<open>
  The application behind the HTTP interface is a parameter: a state \<open>'r\<close> and a function
  \<open>respond\<close> from a state and a request to a reply and the next state. The world of a
  run is the state of the remote, the calls issued so far with their replies, and the
  lines printed (as records of what they report).
\<close>

datatype log_entry =
    LogTotal nat
  | LogDryRunAdd str str str
  | LogDryRunUpdate int str
  | LogAdd json str str
  | LogUpd int str str

record 'r world =
  remote :: 'r
  calls :: "(request \<times> reply) list"
  out :: "log_entry list"

definition ankiconnect ::
  "('r \<Rightarrow> request \<Rightarrow> reply \<times> 'r) \<Rightarrow> str \<Rightarrow> json \<Rightarrow> 'r world \<Rightarrow> (error + json) \<times> 'r world" where
  "ankiconnect respond act ps w =
     (let payload = \<lparr>action = act, version = ANKI_CONNECT_VERSION,
                      params = (if truthy ps then ps else JObj [])\<rparr>
      in (reply_result (fst (respond (remote w) payload)),
          w\<lparr>remote := snd (respond (remote w) payload),
            calls := calls w @ [(payload, fst (respond (remote w) payload))]\<rparr>))"

definition ensure_deck ::
  "('r \<Rightarrow> request \<Rightarrow> reply \<times> 'r) \<Rightarrow> str \<Rightarrow> 'r world \<Rightarrow> (error + unit) \<times> 'r world" where
  "ensure_deck respond deck_name w =
     (case ankiconnect respond (lit ''createDeck'') (JObj [(lit ''deck'', JStr deck_name)]) w of
        (Inl e, w') \<Rightarrow> (Inl e, w')
      | (Inr _, w') \<Rightarrow> (Inr (), w'))"

text \<open>
  \<open>int(x)\<close> for a decoded JSON value. The conversion of a string is Python's own and is
  a parameter, \<open>str_to_int\<close>, with \<open>None\<close> where \<open>int\<close> raises \<open>ValueError\<close>.
\<close>

fun py_int :: "(str \<Rightarrow> int option) \<Rightarrow> json \<Rightarrow> error + int" where
  "py_int str_to_int (JInt n) = Inr n"
| "py_int str_to_int (JBool b) = Inr (if b then 1 else 0)"
| "py_int str_to_int (JStr s) = (case str_to_int s of None \<Rightarrow> Inl ValueError | Some n \<Rightarrow> Inr n)"
| "py_int str_to_int JNull = Inl TypeError"
| "py_int str_to_int (JList xs) = Inl TypeError"
| "py_int str_to_int (JObj kvs) = Inl TypeError"

text \<open>
  The lines of \<open>find_note_id_by_tag\<close> after the call: \<open>note_ids = result or []\<close>,
  \<open>None\<close> when that is empty, else \<open>int(note_ids[0])\<close>. A string is indexed by
  characters, a dictionary by its keys (which are strings, so the key \<open>0\<close> is missing), a
  number or \<open>True\<close> cannot be indexed.
\<close>

fun first_note_id :: "(str \<Rightarrow> int option) \<Rightarrow> json \<Rightarrow> error + int option" where
  "first_note_id str_to_int (JList (x # xs)) =
     (case py_int str_to_int x of Inl e \<Rightarrow> Inl e | Inr n \<Rightarrow> Inr (Some n))"
| "first_note_id str_to_int (JStr (c # cs)) =
     (case py_int str_to_int (JStr [c]) of Inl e \<Rightarrow> Inl e | Inr n \<Rightarrow> Inr (Some n))"
| "first_note_id str_to_int (JObj (kv # kvs)) = Inl KeyError"
| "first_note_id str_to_int j = (if truthy j then Inl TypeError else Inr None)"

definition find_request :: "str \<Rightarrow> json" where
  "find_request tag = JObj [(lit ''query'', JStr (lit ''tag:'' @ tag))]"

definition find_note_id_by_tag ::
  "('r \<Rightarrow> request \<Rightarrow> reply \<times> 'r) \<Rightarrow> (str \<Rightarrow> int option) \<Rightarrow> str \<Rightarrow> 'r world \<Rightarrow>
     (error + int option) \<times> 'r world" where
  "find_note_id_by_tag respond str_to_int tag w =
     (case ankiconnect respond (lit ''findNotes'') (find_request tag) w of
        (Inl e, w') \<Rightarrow> (Inl e, w')
      | (Inr note_ids, w') \<Rightarrow> (first_note_id str_to_int note_ids, w'))"

text \<open>The three payloads of \<open>add_or_update_basic_note\<close>.\<close>

definition note_fields :: "card \<Rightarrow> json" where
  "note_fields c = JObj [(lit ''Front'', JStr (front c)), (lit ''Back'', JStr (back_txt c))]"

definition add_note_params :: "card \<Rightarrow> json" where
  "add_note_params c =
     JObj [(lit ''note'',
            JObj [(lit ''deckName'', JStr (deck c)),
                  (lit ''modelName'', JStr (lit ''Basic'')),
                  (lit ''fields'', note_fields c),
                  (lit ''tags'', JList (map JStr (tags c)))])]"

definition update_params :: "int \<Rightarrow> card \<Rightarrow> json" where
  "update_params existing_id c =
     JObj [(lit ''note'', JObj [(lit ''id'', JInt existing_id), (lit ''fields'', note_fields c)])]"

definition add_tags_params :: "int \<Rightarrow> card \<Rightarrow> json" where
  "add_tags_params existing_id c =
     JObj [(lit ''notes'', JList [JInt existing_id]),
           (lit ''tags'', JStr (join (lit '' '') (tags c)))]"

definition add_note ::
  "('r \<Rightarrow> request \<Rightarrow> reply \<times> 'r) \<Rightarrow> card \<Rightarrow> 'r world \<Rightarrow> (error + unit) \<times> 'r world" where
  "add_note respond c w =
     (case ankiconnect respond (lit ''addNote'') (add_note_params c) w of
        (Inl e, w') \<Rightarrow> (Inl e, w')
      | (Inr result, w') \<Rightarrow>
          (Inr (), w'\<lparr>out := out w' @ [LogAdd result (deck c) (stable_tag c)]\<rparr>))"

definition update_note ::
  "('r \<Rightarrow> request \<Rightarrow> reply \<times> 'r) \<Rightarrow> int \<Rightarrow> card \<Rightarrow> 'r world \<Rightarrow> (error + unit) \<times> 'r world" where
  "update_note respond existing_id c w =
     (case ankiconnect respond (lit ''updateNoteFields'') (update_params existing_id c) w of
        (Inl e, w') \<Rightarrow> (Inl e, w')
      | (Inr _, w') \<Rightarrow>
          (case ankiconnect respond (lit ''addTags'') (add_tags_params existing_id c) w' of
             (Inl e, w'') \<Rightarrow> (Inl e, w'')
           | (Inr _, w'') \<Rightarrow>
               (Inr (), w''\<lparr>out := out w'' @ [LogUpd existing_id (deck c) (stable_tag c)]\<rparr>)))"

text \<open>
  \<open>add_or_update_basic_note\<close>. In a dry run nothing is looked up and \<open>existing_id\<close> is
  \<open>None\<close>. The branches \<open>add_note\<close> and \<open>update_note\<close> are the two halves of the source's
  \<open>if existing_id is None\<close> after their dry-run returns.
\<close>

definition add_or_update_basic_note ::
  "('r \<Rightarrow> request \<Rightarrow> reply \<times> 'r) \<Rightarrow> (str \<Rightarrow> int option) \<Rightarrow> card \<Rightarrow> bool \<Rightarrow> 'r world \<Rightarrow>
     (error + unit) \<times> 'r world" where
  "add_or_update_basic_note respond str_to_int c dry_run w =
     (case (if dry_run then (Inr None, w)
            else find_note_id_by_tag respond str_to_int (stable_tag c) w) of
        (Inl e, w') \<Rightarrow> (Inl e, w')
      | (Inr None, w') \<Rightarrow>
          if dry_run then
            (Inr (), w'\<lparr>out := out w' @
               [LogDryRunAdd (deck c) (stable_tag c) (take 60 (front c))]\<rparr>)
          else add_note respond c w'
      | (Inr (Some existing_id), w') \<Rightarrow>
          if dry_run then
            (Inr (), w'\<lparr>out := out w' @ [LogDryRunUpdate existing_id (stable_tag c)]\<rparr>)
          else update_note respond existing_id c w')"

section \<open>The sync command\<close>

definition path_name :: "path \<Rightarrow> str" where
  "path_name p = (if length p \<le> 1 \<and> (p = [] \<or> is_absolute p) then [] else last p)"

definition build_deck_name :: "path \<Rightarrow> str \<Rightarrow> str" where
  "build_deck_name vault class_name = path_name vault @ lit ''::'' @ class_name"

text \<open>
  The collecting loop of \<open>main\<close> over what \<open>iter_md_files\<close> yields: the class, the path
  of a file, and (from \<open>read_text\<close>) its text.
\<close>

fun collect_cards :: "path \<Rightarrow> (str \<times> path \<times> str) list \<Rightarrow> error + card list" where
  "collect_cards vault [] = Inr []"
| "collect_cards vault ((cls, md_path, text) # files) =
     (case extract_cards_from_markdown vault md_path (build_deck_name vault cls)
             [cls, path_name vault] text of
        Inl e \<Rightarrow> Inl e
      | Inr cs \<Rightarrow>
          (case collect_cards vault files of
             Inl e \<Rightarrow> Inl e
           | Inr rest \<Rightarrow> Inr (cs @ rest)))"

fun ensure_decks ::
  "('r \<Rightarrow> request \<Rightarrow> reply \<times> 'r) \<Rightarrow> str list \<Rightarrow> 'r world \<Rightarrow> (error + unit) \<times> 'r world" where
  "ensure_decks respond [] w = (Inr (), w)"
| "ensure_decks respond (d # ds) w =
     (case ensure_deck respond d w of
        (Inl e, w') \<Rightarrow> (Inl e, w')
      | (Inr _, w') \<Rightarrow> ensure_decks respond ds w')"

fun add_or_update_all ::
  "('r \<Rightarrow> request \<Rightarrow> reply \<times> 'r) \<Rightarrow> (str \<Rightarrow> int option) \<Rightarrow> bool \<Rightarrow> card list \<Rightarrow> 'r world \<Rightarrow>
     (error + unit) \<times> 'r world" where
  "add_or_update_all respond str_to_int dry_run [] w = (Inr (), w)"
| "add_or_update_all respond str_to_int dry_run (c # cs) w =
     (case add_or_update_basic_note respond str_to_int c dry_run w of
        (Inl e, w') \<Rightarrow> (Inl e, w')
      | (Inr _, w') \<Rightarrow> add_or_update_all respond str_to_int dry_run cs w')"

text \<open>The part of \<open>main\<close> after the comment \<open># sync\<close>.\<close>

definition sync_cards ::
  "('r \<Rightarrow> request \<Rightarrow> reply \<times> 'r) \<Rightarrow> (str \<Rightarrow> int option) \<Rightarrow> bool \<Rightarrow> card list \<Rightarrow> 'r world \<Rightarrow>
     (error + unit) \<times> 'r world" where
  "sync_cards respond str_to_int dry_run all_cards w =
     (case (if dry_run then (Inr (), w)
            else ensure_decks respond (sort (remdups (map deck all_cards))) w) of
        (Inl e, w') \<Rightarrow> (Inl e, w')
      | (Inr _, w') \<Rightarrow> add_or_update_all respond str_to_int dry_run all_cards w')"

text \<open>\<open>main\<close> for the command \<open>sync\<close>, on an existing vault.\<close>

definition main_sync ::
  "('r \<Rightarrow> request \<Rightarrow> reply \<times> 'r) \<Rightarrow> (str \<Rightarrow> int option) \<Rightarrow> path \<Rightarrow> (str \<times> path \<times> str) list \<Rightarrow>
     bool \<Rightarrow> 'r world \<Rightarrow> (error + unit) \<times> 'r world" where
  "main_sync respond str_to_int vault files dry_run w =
     (case collect_cards vault files of
        Inl e \<Rightarrow> (Inl e, w)
      | Inr all_cards \<Rightarrow>
          sync_cards respond str_to_int dry_run all_cards
            (w\<lparr>out := out w @ [LogTotal (length all_cards)]\<rparr>))"

section \<open>The scanner, block by block\<close>

definition is_question :: "str \<Rightarrow> bool" where
  "is_question l \<longleftrightarrow> startswith l (lit ''Q::'')"

definition is_answer :: "str \<Rightarrow> bool" where
  "is_answer l \<longleftrightarrow> startswith l (lit ''A::'')"

definition question_text :: "str \<Rightarrow> str" where
  "question_text l = strip (drop (length (lit ''Q::'')) l)"

definition answer_rest :: "str \<Rightarrow> str" where
  "answer_rest l = lstrip (drop (length (lit ''A::'')) l)"

fun blocks :: "str list \<Rightarrow> str list \<times> (str \<times> str list) list" where
  "blocks [] = ([], [])"
| "blocks (l # ls) =
     (case blocks ls of (pre, bs) \<Rightarrow>
        if is_question l then ([], (l, pre) # bs) else (l # pre, bs))"

definition piece :: "str \<Rightarrow> str list" where
  "piece l = (if is_answer l then (if answer_rest l = [] then [] else [answer_rest l]) else [l])"

definition collected :: "bool \<Rightarrow> str list \<Rightarrow> str list" where
  "collected started body =
     concat (map piece (if started then body else dropWhile (\<lambda>l. \<not> is_answer l) body))"

definition answer_lines :: "str list \<Rightarrow> str list" where
  "answer_lines body = collected False body"

definition mk_card :: "path \<Rightarrow> path \<Rightarrow> str \<Rightarrow> str list \<Rightarrow> str \<Rightarrow> str list \<Rightarrow> int \<Rightarrow> error + card list" where
  "mk_card vault_root md_path dk base_tags qq als n =
     (if als = [] then Inr []
      else (case stable_id_tag vault_root md_path qq n of
              Inl e \<Rightarrow> Inl e
            | Inr tag \<Rightarrow>
                Inr [\<lparr>deck = dk, front = qq, back_txt = strip (join (lit ''\<newline>'') als),
                      tags = base_tags @ [tag], stable_tag = tag\<rparr>]))"

fun block_cards ::
  "path \<Rightarrow> path \<Rightarrow> str \<Rightarrow> str list \<Rightarrow> int \<Rightarrow> (str \<times> str list) list \<Rightarrow> error + card list" where
  "block_cards vault_root md_path dk base_tags n [] = Inr []"
| "block_cards vault_root md_path dk base_tags n (b # bs) =
     (case mk_card vault_root md_path dk base_tags (question_text (fst b)) (answer_lines (snd b)) n of
        Inl e \<Rightarrow> Inl e
      | Inr c \<Rightarrow>
          (case block_cards vault_root md_path dk base_tags (n + 1) bs of
             Inl e \<Rightarrow> Inl e
           | Inr cs \<Rightarrow> Inr (c @ cs)))"

definition open_card :: "path \<Rightarrow> path \<Rightarrow> str \<Rightarrow> str list \<Rightarrow> scan_state \<Rightarrow> str list \<Rightarrow> error + card list" where
  "open_card vr mp dk bt s pre =
     (case q_cur s of None \<Rightarrow> Inr []
      | Some qq \<Rightarrow> mk_card vr mp dk bt qq (a_lines s @ collected (in_answer s) pre) (ordinal s))"

definition finish :: "path \<Rightarrow> path \<Rightarrow> str \<Rightarrow> str list \<Rightarrow> scan_state \<Rightarrow> str list \<Rightarrow> error + card list" where
  "finish vr mp dk bt s ls =
     (case scan_lines vr mp dk bt s ls of Inl e \<Rightarrow> Inl e | Inr s' \<Rightarrow> flush vr mp dk bt s')"

definition expected :: "path \<Rightarrow> path \<Rightarrow> str \<Rightarrow> str list \<Rightarrow> scan_state \<Rightarrow> str list \<Rightarrow> (str \<times> str list) list \<Rightarrow> error + card list" where
  "expected vr mp dk bt s pre bs =
     (case open_card vr mp dk bt s pre of
        Inl e \<Rightarrow> Inl e
      | Inr c \<Rightarrow>
         (case block_cards vr mp dk bt (ordinal s + 1) bs of
            Inl e \<Rightarrow> Inl e
          | Inr cs \<Rightarrow> Inr (cards s @ c @ cs)))"

definition answered :: "int \<times> str \<times> str list \<Rightarrow> bool" where
  "answered nb \<longleftrightarrow> answer_lines (snd (snd nb)) \<noteq> []"

definition number_from :: "int \<Rightarrow> (str \<times> str list) list \<Rightarrow> (int \<times> str \<times> str list) list" where
  "number_from n bs = zip [n..n + int (length bs) - 1] bs"

definition numbered_blocks :: "str list \<Rightarrow> (int \<times> str \<times> str list) list" where
  "numbered_blocks ls = number_from 1 (snd (blocks ls))"

definition card_of_block ::
  "path \<Rightarrow> path \<Rightarrow> str \<Rightarrow> str list \<Rightarrow> card \<Rightarrow> int \<times> str \<times> str list \<Rightarrow> bool" where
  "card_of_block vr mp dk bt c nb \<longleftrightarrow>
     stable_id_tag vr mp (question_text (fst (snd nb))) (fst nb) = Inr (stable_tag c) \<and>
     c = \<lparr>deck = dk, front = question_text (fst (snd nb)),
          back_txt = strip (join (lit ''\<newline>'') (answer_lines (snd (snd nb)))),
          tags = bt @ [stable_tag c], stable_tag = stable_tag c\<rparr>"

text \<open>
  The answer text as the specification words it: the content after the answer marker
  together with all following lines of the block, joined in order.
\<close>

definition claimed_answer :: "str list \<Rightarrow> str" where
  "claimed_answer body =
     (case dropWhile (\<lambda>l. \<not> is_answer l) body of
        [] \<Rightarrow> []
      | a # rest \<Rightarrow> join (lit ''\<newline>'') (drop (length (lit ''A::'')) a # rest))"

section \<open>An example file\<close>

definition ex_root :: path where
  "ex_root = [lit ''/'', lit ''vault'', lit ''03_sp26'']"

definition ex_path :: path where
  "ex_path = [lit ''/'', lit ''vault'', lit ''03_sp26'', lit ''math250'', lit ''notes.md'']"

definition ex_text :: str where
  "ex_text = lit ''Intro\<newline>Q:: What is 2+2?\<newline>A:: 4\<newline>Q:: Dropped\<newline>Q:: Capital of France?\<newline>note\<newline>A::\<newline>Paris\<newline>A:: (city)\<newline>''"

definition ex_card1 :: card where
  "ex_card1 = \<lparr>deck = lit ''03_sp26::math250'', front = lit ''What is 2+2?'', back_txt = lit ''4'',
     tags = [lit ''math250'', lit ''03_sp26'', lit ''ankivert_id_cbbd1b6ffcfc''],
     stable_tag = lit ''ankivert_id_cbbd1b6ffcfc''\<rparr>"

definition ex_card3 :: card where
  "ex_card3 = \<lparr>deck = lit ''03_sp26::math250'', front = lit ''Capital of France?'',
     back_txt = lit ''Paris\<newline>(city)'',
     tags = [lit ''math250'', lit ''03_sp26'', lit ''ankivert_id_9662ef9f5076''],
     stable_tag = lit ''ankivert_id_9662ef9f5076''\<rparr>"

definition ex_deck :: str where
  "ex_deck = lit ''03_sp26::math250''"

definition ex_base_tags :: "str list" where
  "ex_base_tags = [lit ''math250'', lit ''03_sp26'']"

definition ex_blank_card :: card where
  "ex_blank_card = \<lparr>deck = ex_deck, front = lit ''x'', back_txt = [],
     tags = ex_base_tags @ [lit ''ankivert_id_54e5a4eaf1c0''],
     stable_tag = lit ''ankivert_id_54e5a4eaf1c0''\<rparr>"

section \<open>Calls, failures and tags found\<close>

text \<open>The calls that a run from \<open>w\<close> to \<open>w'\<close> has added.\<close>

definition new_calls :: "'r world \<Rightarrow> 'r world \<Rightarrow> (request \<times> reply) list" where
  "new_calls w w' = drop (length (calls w)) (calls w')"

text \<open>
  A failed call: no reply, a status code from 400 to 599, a body that is not a JSON
  object, or an \<open>error\<close> field that counts as true.
\<close>

definition reply_failed :: "reply \<Rightarrow> bool" where
  "reply_failed rep =
     (case rep of
        NoReply \<Rightarrow> True
      | Reply st body \<Rightarrow>
          (400 \<le> st \<and> st < 600) \<or>
          (case body of
             None \<Rightarrow> True
           | Some (JObj kvs) \<Rightarrow> truthy (dict_get kvs (lit ''error''))
           | Some _ \<Rightarrow> True))"

text \<open>The claim's reading of a failed call: a status code outside 200 to 299.\<close>

definition non_2xx :: "reply \<Rightarrow> bool" where
  "non_2xx rep = (case rep of NoReply \<Rightarrow> False | Reply st body \<Rightarrow> st < 200 \<or> 300 \<le> st)"

definition payload_of :: "str \<Rightarrow> json \<Rightarrow> request" where
  "payload_of act ps =
     \<lparr>action = act, version = ANKI_CONNECT_VERSION, params = (if truthy ps then ps else JObj [])\<rparr>"

text \<open>What \<open>find_note_id_by_tag\<close> makes of the reply to its request.\<close>

definition lookup :: "(str \<Rightarrow> int option) \<Rightarrow> reply \<Rightarrow> error + int option" where
  "lookup str_to_int rep =
     (case reply_result rep of Inl e \<Rightarrow> Inl e | Inr note_ids \<Rightarrow> first_note_id str_to_int note_ids)"

text \<open>In the state \<open>r\<close> of the remote the search for the tag gives a note.\<close>

definition finds ::
  "('r \<Rightarrow> request \<Rightarrow> reply \<times> 'r) \<Rightarrow> (str \<Rightarrow> int option) \<Rightarrow> 'r \<Rightarrow> str \<Rightarrow> bool" where
  "finds respond str_to_int r tag =
     (case lookup str_to_int (fst (respond r (payload_of (lit ''findNotes'') (find_request tag)))) of
        Inr (Some n) \<Rightarrow> True
      | _ \<Rightarrow> False)"

definition program_actions :: "str list" where
  "program_actions =
     [lit ''createDeck'', lit ''findNotes'', lit ''addNote'', lit ''updateNoteFields'',
      lit ''addTags'']"

text \<open>
  Modelled from the spec: the flashcard application is not part of the repository. What
  the properties of repeated runs need of it is that it keeps tags: a note created with
  tags is found by a search for each of them, and a tag that is found stays found over
  each of the five actions of this program.
\<close>

definition tag_keeping ::
  "('r \<Rightarrow> request \<Rightarrow> reply \<times> 'r) \<Rightarrow> (str \<Rightarrow> int option) \<Rightarrow> bool" where
  "tag_keeping respond str_to_int \<longleftrightarrow>
     (\<forall>r c t. \<not> reply_failed (fst (respond r (payload_of (lit ''addNote'') (add_note_params c)))) \<longrightarrow>
        t \<in> set (tags c) \<longrightarrow>
        finds respond str_to_int (snd (respond r (payload_of (lit ''addNote'') (add_note_params c)))) t) \<and>
     (\<forall>r req t. action req \<in> set program_actions \<longrightarrow> finds respond str_to_int r t \<longrightarrow>
        finds respond str_to_int (snd (respond r req)) t)"

text \<open>
  Modelled from the spec: a small flashcard application that keeps tags. Its state is the
  list of its notes, each an identifier with its tags; a search \<open>tag:t\<close> gives the notes
  that carry \<open>t\<close>, \<open>addNote\<close> appends a note with the next identifier, and the other
  actions of the program succeed and leave the notes alone.
\<close>

type_synonym note_store = "(int \<times> str list) list"

definition ok_reply :: "json \<Rightarrow> reply" where
  "ok_reply result = Reply 200 (Some (JObj [(lit ''result'', result), (lit ''error'', JNull)]))"

definition error_reply :: "str \<Rightarrow> reply" where
  "error_reply msg = Reply 200 (Some (JObj [(lit ''result'', JNull), (lit ''error'', JStr msg)]))"

fun json_strs :: "json \<Rightarrow> str list" where
  "json_strs (JList xs) = concat (map (\<lambda>x. case x of JStr s \<Rightarrow> [s] | _ \<Rightarrow> []) xs)"
| "json_strs j = []"

fun json_get :: "json \<Rightarrow> str \<Rightarrow> json" where
  "json_get (JObj kvs) k = dict_get kvs k"
| "json_get j k = JNull"

definition notes_respond :: "note_store \<Rightarrow> request \<Rightarrow> reply \<times> note_store" where
  "notes_respond ns req =
     (if action req = lit ''findNotes'' then
        (case json_get (params req) (lit ''query'') of
           JStr q \<Rightarrow>
             (ok_reply (JList (map (\<lambda>n. JInt (fst n))
                 (filter (\<lambda>n. startswith q (lit ''tag:'') \<and> drop 4 q \<in> set (snd n)) ns))), ns)
         | _ \<Rightarrow> (error_reply (lit ''bad query''), ns))
      else if action req = lit ''addNote'' then
        (ok_reply (JInt (1 + int (length ns))),
         ns @ [(1 + int (length ns),
                json_strs (json_get (json_get (params req) (lit ''note'')) (lit ''tags'')))])
      else if action req \<in> set program_actions then (ok_reply JNull, ns)
      else (error_reply (lit ''unsupported action''), ns))"

text \<open>Remotes and a string conversion for the closed examples.\<close>

definition no_str_to_int :: "str \<Rightarrow> int option" where
  "no_str_to_int s = None"

definition moved_reply :: reply where
  "moved_reply = Reply 302 (Some (JObj [(lit ''result'', JNull), (lit ''error'', JNull)]))"

definition moved_remote :: "unit \<Rightarrow> request \<Rightarrow> reply \<times> unit" where
  "moved_remote r req = (moved_reply, r)"

definition broken_remote :: "unit \<Rightarrow> request \<Rightarrow> reply \<times> unit" where
  "broken_remote r req = (Reply 500 None, r)"

definition ex_files :: "(str \<times> path \<times> str) list" where
  "ex_files = [(lit ''math250'', ex_path, ex_text)]"

definition w0 :: "'r \<Rightarrow> 'r world" where
  "w0 r = \<lparr>remote = r, calls = [], out = []\<rparr>"

text \<open>
  What a dry run prints for a card.
\<close>

definition dry_entry :: "card \<Rightarrow> log_entry" where
  "dry_entry c = LogDryRunAdd (deck c) (stable_tag c) (take 60 (front c))"

text \<open>
  A run from \<open>w\<close> to \<open>w'\<close> stops at a failure: it only adds calls, none but the
  last of them failed, and if the last one failed the run has raised.
\<close>

definition run_ok :: "'r world \<Rightarrow> bool \<Rightarrow> 'r world \<Rightarrow> bool" where
  "run_ok w raised w' \<longleftrightarrow>
     (\<exists>new. calls w' = calls w @ new \<and> (\<forall>c\<in>set (butlast new). \<not> reply_failed (snd c)) \<and>
        (new \<noteq> [] \<and> reply_failed (snd (last new)) \<longrightarrow> raised))"

text \<open>
  The actions of the calls that a run has added, and the three actions of an update.
\<close>

definition new_actions :: "'r world \<Rightarrow> 'r world \<Rightarrow> str list" where
  "new_actions w w' = map (\<lambda>c. action (fst c)) (new_calls w w')"

definition update_actions :: "str list" where
  "update_actions = [lit ''findNotes'', lit ''updateNoteFields'', lit ''addTags'']"

text \<open>
  A run from \<open>w\<close> to \<open>w'\<close> follows a list of actions: the actions of its calls are
  a beginning of the list, and the whole list if the run has completed.
\<close>

definition follows :: "'r world \<Rightarrow> bool \<Rightarrow> 'r world \<Rightarrow> str list \<Rightarrow> bool" where
  "follows w completed w' full \<longleftrightarrow>
     (\<exists>new k. calls w' = calls w @ new \<and> map (\<lambda>c. action (fst c)) new = take k full \<and>
        (completed \<longrightarrow> map (\<lambda>c. action (fst c)) new = full))"

text \<open>
  The notes of the small application that carry a tag, and the worlds after a first and a second run on the example file.
\<close>

definition tagged :: "note_store \<Rightarrow> str \<Rightarrow> int list" where
  "tagged ns t = map fst (filter (\<lambda>n. t \<in> set (snd n)) ns)"

definition ex_w1 :: "note_store world" where
  "ex_w1 = snd (main_sync notes_respond no_str_to_int ex_root ex_files False (w0 []))"

definition ex_w2 :: "note_store world" where
  "ex_w2 = snd (main_sync notes_respond no_str_to_int ex_root ex_files False ex_w1)"

section \<open>The scanner refines its block-wise description\<close>

lemma lit_NL: "lit ''\<newline>'' = [10]"
  by (simp add: lit_def)

lemma lit_Q_len: "length (lit ''Q::'') = 3" and lit_A_len: "length (lit ''A::'') = 3"
  by (simp_all add: lit_def)

lemma is_linebreak_LF: "is_linebreak 10"
  by (simp add: is_linebreak_def)

lemma not_linebreak_LF: "\<not> is_linebreak c \<Longrightarrow> c \<noteq> 10"
  using is_linebreak_LF by auto

lemma splitlines_from_no_LF:
  "10 \<notin> set cur \<Longrightarrow> l \<in> set (splitlines_from cur t) \<Longrightarrow> 10 \<notin> set l"
proof (induction cur t rule: splitlines_from.induct)
  case (1 cur)
  then show ?case by (simp split: if_splits)
next
  case (2 cur c cs)
  show ?case
  proof (cases cs)
    case Nil
    show ?thesis
    proof (cases "is_linebreak c")
      case True
      with 2 Nil show ?thesis by simp
    next
      case False
      with 2 Nil not_linebreak_LF[OF False] show ?thesis by simp
    qed
  next
    case (Cons d ds)
    show ?thesis
    proof (cases "c = 13 \<and> d = 10")
      case True
      from "2.prems"(2) Cons True have "l = cur \<or> l \<in> set (splitlines_from [] ds)" by simp
      then show ?thesis
      proof
        assume "l = cur" with "2.prems"(1) show ?thesis by simp
      next
        assume "l \<in> set (splitlines_from [] ds)"
        with "2.IH"(1)[OF Cons True] show ?thesis by simp
      qed
    next
      case notcrlf: False
      show ?thesis
      proof (cases "is_linebreak c")
        case True
        from "2.prems"(2) Cons notcrlf True
        have "l = cur \<or> l \<in> set (splitlines_from [] cs)" by auto
        then show ?thesis
        proof
          assume "l = cur" with "2.prems"(1) show ?thesis by simp
        next
          assume "l \<in> set (splitlines_from [] cs)"
          with "2.IH"(2)[OF Cons notcrlf True] show ?thesis by simp
        qed
      next
        case False
        from "2.prems"(2) Cons notcrlf False
        have "l \<in> set (splitlines_from (cur @ [c]) cs)" by auto
        moreover have "10 \<notin> set (cur @ [c])"
          using "2.prems"(1) not_linebreak_LF[OF False] by simp
        ultimately show ?thesis
          using "2.IH"(3)[OF Cons notcrlf False] by simp
      qed
    qed
  qed
qed

lemma splitlines_no_LF: "l \<in> set (splitlines t) \<Longrightarrow> 10 \<notin> set l"
  unfolding splitlines_def by (rule splitlines_from_no_LF) simp_all

lemma rstrip_chars_id: "10 \<notin> set l \<Longrightarrow> rstrip_chars (lit ''\<newline>'') l = l"
proof (cases l rule: rev_cases)
  case Nil
  then show ?thesis by (simp add: rstrip_chars_def)
next
  case (snoc ys y)
  assume "10 \<notin> set l"
  with snoc have "y \<noteq> 10" by auto
  with snoc show ?thesis by (simp add: rstrip_chars_def lit_NL)
qed

text \<open>one step on a clean line\<close>

lemma scan_line_question:
  assumes "10 \<notin> set l" "is_question l"
  shows "scan_line vr mp dk bt s l =
     (case flush vr mp dk bt s of Inl e \<Rightarrow> Inl e
      | Inr cs \<Rightarrow> Inr \<lparr>cards = cs, q_cur = Some (question_text l), a_lines = [],
                       in_answer = False, ordinal = ordinal s + 1\<rparr>)"
  using assms unfolding scan_line_def question_text_def is_question_def
  by (simp add: rstrip_chars_id)

lemma scan_line_other_None:
  assumes "10 \<notin> set l" "\<not> is_question l" "q_cur s = None"
  shows "scan_line vr mp dk bt s l = Inr s"
  using assms by (simp add: scan_line_def rstrip_chars_id is_question_def Let_def)

lemma scan_line_other_Some:
  assumes "10 \<notin> set l" "\<not> is_question l" "q_cur s = Some qq"
  shows "scan_line vr mp dk bt s l =
     Inr (s\<lparr>a_lines := a_lines s @ collected (in_answer s) [l],
            in_answer := in_answer s \<or> is_answer l\<rparr>)"
  using assms
  by (auto simp: scan_line_def rstrip_chars_id is_question_def is_answer_def Let_def collected_def
      piece_def answer_rest_def)

lemma collected_Cons:
  "collected st (l # ls) = collected st [l] @ collected (st \<or> is_answer l) ls"
  by (auto simp: collected_def)

lemma flush_open:
  "flush vr mp dk bt s =
     (case open_card vr mp dk bt s [] of Inl e \<Rightarrow> Inl e | Inr c \<Rightarrow> Inr (cards s @ c))"
  by (auto simp: flush_def mk_card_def open_card_def collected_def split: option.splits sum.splits)

lemma finish_Nil: "finish vr mp dk bt s [] = expected vr mp dk bt s [] []"
  by (simp add: finish_def expected_def flush_open split: sum.splits)

lemma finish_Cons:
  "finish vr mp dk bt s (l # ls) =
     (case scan_line vr mp dk bt s l of Inl e \<Rightarrow> Inl e | Inr s' \<Rightarrow> finish vr mp dk bt s' ls)"
  by (simp add: finish_def split: sum.splits)

lemma expected_question:
  "expected vr mp dk bt s [] ((l, pre) # bs) =
     (case flush vr mp dk bt s of Inl e \<Rightarrow> Inl e
      | Inr cs0 \<Rightarrow> expected vr mp dk bt
          \<lparr>cards = cs0, q_cur = Some (question_text l), a_lines = [],
           in_answer = False, ordinal = ordinal s + 1\<rparr> pre bs)"
  by (simp add: expected_def flush_open open_card_def answer_lines_def split: sum.splits)

lemma expected_other_Some:
  "q_cur s = Some qq \<Longrightarrow>
   expected vr mp dk bt (s\<lparr>a_lines := a_lines s @ collected (in_answer s) [l],
            in_answer := in_answer s \<or> is_answer l\<rparr>) pre bs =
   expected vr mp dk bt s (l # pre) bs"
  by (simp add: expected_def open_card_def collected_Cons[of _ l pre] cong: sum.case_cong)

lemma scan_lines_blocks:
  assumes "\<forall>l\<in>set ls. 10 \<notin> set l"
  shows "finish vr mp dk bt s ls = expected vr mp dk bt s (fst (blocks ls)) (snd (blocks ls))"
  using assms
proof (induction ls arbitrary: s)
  case Nil
  show ?case by (simp add: finish_Nil)
next
  case (Cons l ls)
  have clean: "10 \<notin> set l" and rest: "\<forall>l\<in>set ls. 10 \<notin> set l"
    using Cons.prems by auto
  note IH = Cons.IH[OF rest]
  obtain pre bs where B: "blocks ls = (pre, bs)" by (cases "blocks ls")
  show ?case
  proof (cases "is_question l")
    case True
    have "finish vr mp dk bt s (l # ls) =
      (case flush vr mp dk bt s of Inl e \<Rightarrow> Inl e
       | Inr cs0 \<Rightarrow> finish vr mp dk bt \<lparr>cards = cs0, q_cur = Some (question_text l), a_lines = [],
           in_answer = False, ordinal = ordinal s + 1\<rparr> ls)"
      by (simp add: finish_Cons scan_line_question[OF clean True] split: sum.splits)
    also have "\<dots> = expected vr mp dk bt s [] ((l, pre) # bs)"
      by (simp add: expected_question IH B split: sum.splits)
    finally show ?thesis using True B by simp
  next
    case False
    show ?thesis
    proof (cases "q_cur s")
      case None
      have "finish vr mp dk bt s (l # ls) = finish vr mp dk bt s ls"
        by (simp add: finish_Cons scan_line_other_None[OF clean False None])
      also have "\<dots> = expected vr mp dk bt s pre bs"
        by (simp add: IH B)
      also have "\<dots> = expected vr mp dk bt s (l # pre) bs"
        using None by (simp add: expected_def open_card_def)
      finally show ?thesis using False B by simp
    next
      case (Some qq)
      have "finish vr mp dk bt s (l # ls) =
          finish vr mp dk bt (s\<lparr>a_lines := a_lines s @ collected (in_answer s) [l],
            in_answer := in_answer s \<or> is_answer l\<rparr>) ls"
        by (simp add: finish_Cons scan_line_other_Some[OF clean False Some])
      also have "\<dots> = expected vr mp dk bt s (l # pre) bs"
        by (simp add: IH B expected_other_Some[OF Some])
      finally show ?thesis using False B by simp
    qed
  qed
qed

lemma extract_eq_block_cards:
  "extract_cards_from_markdown vr mp dk bt text =
     block_cards vr mp dk bt 1 (snd (blocks (splitlines text)))"
proof -
  have "\<forall>l\<in>set (splitlines text). 10 \<notin> set l"
    using splitlines_no_LF by blast
  from scan_lines_blocks[OF this, of vr mp dk bt scan_init]
  show ?thesis
    by (simp add: extract_cards_from_markdown_def finish_def expected_def open_card_def
        scan_init_def split: sum.splits)
qed

section \<open>Evaluation of the example\<close>

lemma replicate_num: "replicate (numeral k) x = x # replicate (pred_numeral k) x"
  by (simp add: numeral_eq_Suc)

lemma schedule_numeral:
  "schedule (numeral k) rws =
     schedule (pred_numeral k) (rotl32 1 (rws ! 2 XOR rws ! 7 XOR rws ! 13 XOR rws ! 15) # rws)"
  by (simp add: numeral_eq_Suc)

lemma str_nat_numeral:
  "str_nat (numeral k) =
     (if (numeral k :: nat) < 10 then [48 + numeral k]
      else str_nat (numeral k div 10) @ [48 + numeral k mod 10])"
  by (rule str_nat.simps)

lemma str_nat_Suc_0: "str_nat (Suc 0) = [49]"
  by (simp add: str_nat.simps)

lemma str_nat_0: "str_nat 0 = [48]"
  by (simp add: str_nat.simps)

lemmas str_eval = str_int_def str_nat_numeral str_nat_Suc_0 str_nat_0

lemmas sha1_eval = sha1_def sha1_pad_def be64_def be32_def sha1_block_def expand_def
  schedule_numeral replicate_num rotl32_def add32_def not32_def sha1_f_def sha1_k_def
  hexdigest_def hex_digit_def

lemmas id_eval = stable_id_tag_def relative_to_def as_posix_def is_absolute_def id_raw_def
  id_of_raw_def utf8_char_def lit_def

lemma ex_id_1:
  "stable_id_tag ex_root ex_path (lit ''What is 2+2?'') 1 = Inr (lit ''ankivert_id_cbbd1b6ffcfc'')"
  by (simp add: ex_root_def ex_path_def id_eval str_eval sha1_eval)

lemma ex_id_3:
  "stable_id_tag ex_root ex_path (lit ''Capital of France?'') 3 = Inr (lit ''ankivert_id_9662ef9f5076'')"
  by (simp add: ex_root_def ex_path_def id_eval str_eval sha1_eval)

lemma ex_lines:
  "splitlines ex_text =
     [lit ''Intro'', lit ''Q:: What is 2+2?'', lit ''A:: 4'', lit ''Q:: Dropped'',
      lit ''Q:: Capital of France?'', lit ''note'', lit ''A::'', lit ''Paris'', lit ''A:: (city)'']"
  by (simp add: ex_text_def splitlines_def lit_def is_linebreak_def)

lemma ex_blocks:
  "blocks (splitlines ex_text) =
     ([lit ''Intro''],
      [(lit ''Q:: What is 2+2?'', [lit ''A:: 4'']),
       (lit ''Q:: Dropped'', []),
       (lit ''Q:: Capital of France?'', [lit ''note'', lit ''A::'', lit ''Paris'', lit ''A:: (city)''])])"
  by (simp add: ex_lines is_question_def startswith_def lit_def)

lemma ex_answer_1: "answer_lines [lit ''A:: 4''] = [lit ''4'']"
  by (simp add: answer_lines_def collected_def piece_def is_answer_def answer_rest_def
      startswith_def lstrip_def is_space_def lit_def)

lemma ex_answer_2: "answer_lines [] = []"
  by (simp add: answer_lines_def collected_def)

lemma ex_answer_3:
  "answer_lines [lit ''note'', lit ''A::'', lit ''Paris'', lit ''A:: (city)''] =
     [lit ''Paris'', lit ''(city)'']"
  by (simp add: answer_lines_def collected_def piece_def is_answer_def answer_rest_def
      startswith_def lstrip_def is_space_def lit_def)

lemma ex_question_1: "question_text (lit ''Q:: What is 2+2?'') = lit ''What is 2+2?''"
  by (simp add: question_text_def strip_def lstrip_def rstrip_def is_space_def lit_def)

lemma ex_question_3: "question_text (lit ''Q:: Capital of France?'') = lit ''Capital of France?''"
  by (simp add: question_text_def strip_def lstrip_def rstrip_def is_space_def lit_def)

lemma ex_extract:
  "extract_cards_from_markdown ex_root ex_path ex_deck ex_base_tags ex_text =
     Inr [ex_card1, ex_card3]"
proof -
  have "block_cards ex_root ex_path ex_deck ex_base_tags 1 (snd (blocks (splitlines ex_text))) =
      Inr [\<lparr>deck = ex_deck, front = lit ''What is 2+2?'',
             back_txt = strip (join (lit ''\<newline>'') [lit ''4'']),
             tags = ex_base_tags @ [lit ''ankivert_id_cbbd1b6ffcfc''],
             stable_tag = lit ''ankivert_id_cbbd1b6ffcfc''\<rparr>,
           \<lparr>deck = ex_deck, front = lit ''Capital of France?'',
             back_txt = strip (join (lit ''\<newline>'') [lit ''Paris'', lit ''(city)'']),
             tags = ex_base_tags @ [lit ''ankivert_id_9662ef9f5076''],
             stable_tag = lit ''ankivert_id_9662ef9f5076''\<rparr>]"
    by (simp add: ex_blocks mk_card_def ex_answer_1 ex_answer_2 ex_answer_3
        ex_question_1 ex_question_3 ex_id_1 ex_id_3)
  also have "\<dots> = Inr [ex_card1, ex_card3]"
    by (simp add: ex_card1_def ex_card3_def ex_deck_def ex_base_tags_def strip_def lstrip_def
        rstrip_def is_space_def lit_def)
  finally show ?thesis by (simp add: extract_eq_block_cards)
qed

lemma ex_id_x:
  "stable_id_tag ex_root ex_path (lit ''x'') 1 = Inr (lit ''ankivert_id_54e5a4eaf1c0'')"
  by (simp add: ex_root_def ex_path_def id_eval str_eval sha1_eval)

section \<open>Cards and numbered blocks\<close>

lemma number_from_Nil: "number_from n [] = []"
  by (simp add: number_from_def)

lemma number_from_Cons: "number_from n (b # bs) = (n, b) # number_from (n + 1) bs"
proof -
  have "[n..n + int (length (b # bs)) - 1] = n # [n + 1..n + 1 + int (length bs) - 1]"
    by (subst upto_rec1) (simp_all add: algebra_simps)
  then show ?thesis by (simp add: number_from_def)
qed

lemma mk_card_Inr:
  "mk_card vr mp dk bt qq als n = Inr c \<Longrightarrow>
     (als = [] \<and> c = []) \<or>
     (als \<noteq> [] \<and> (\<exists>tag. stable_id_tag vr mp qq n = Inr tag \<and>
        c = [\<lparr>deck = dk, front = qq, back_txt = strip (join (lit ''\<newline>'') als),
              tags = bt @ [tag], stable_tag = tag\<rparr>]))"
  by (auto simp: mk_card_def split: if_splits sum.splits)

lemma block_cards_all2:
  "block_cards vr mp dk bt n bs = Inr cs \<Longrightarrow>
     list_all2 (card_of_block vr mp dk bt) cs (filter answered (number_from n bs))"
proof (induction bs arbitrary: n cs)
  case Nil
  then show ?case by (simp add: number_from_Nil)
next
  case (Cons b bs)
  from Cons.prems obtain c cs' where
    c: "mk_card vr mp dk bt (question_text (fst b)) (answer_lines (snd b)) n = Inr c"
    and cs': "block_cards vr mp dk bt (n + 1) bs = Inr cs'"
    and cs: "cs = c @ cs'"
    by (auto split: sum.splits)
  note IH = Cons.IH[OF cs']
  from mk_card_Inr[OF c] show ?case
  proof
    assume "answer_lines (snd b) = [] \<and> c = []"
    with IH cs show ?thesis by (simp add: number_from_Cons answered_def)
  next
    assume "answer_lines (snd b) \<noteq> [] \<and> (\<exists>tag. stable_id_tag vr mp (question_text (fst b)) n = Inr tag \<and>
        c = [\<lparr>deck = dk, front = question_text (fst b), back_txt = strip (join (lit ''\<newline>'') (answer_lines (snd b))),
              tags = bt @ [tag], stable_tag = tag\<rparr>])"
    with IH cs show ?thesis
      by (auto simp: number_from_Cons answered_def card_of_block_def)
  qed
qed

lemma extract_all2:
  "extract_cards_from_markdown vr mp dk bt text = Inr cs \<Longrightarrow>
     list_all2 (card_of_block vr mp dk bt) cs (filter answered (numbered_blocks (splitlines text)))"
  by (simp add: extract_eq_block_cards numbered_blocks_def block_cards_all2)

lemma extract_card_block:
  assumes "extract_cards_from_markdown vr mp dk bt text = Inr cs" "c \<in> set cs"
  shows "\<exists>nb \<in> set (numbered_blocks (splitlines text)). answered nb \<and> card_of_block vr mp dk bt c nb"
proof -
  from assms(2) obtain i where i: "i < length cs" "cs ! i = c"
    by (auto simp: in_set_conv_nth)
  let ?nbs = "filter answered (numbered_blocks (splitlines text))"
  from extract_all2[OF assms(1)] have A: "list_all2 (card_of_block vr mp dk bt) cs ?nbs" .
  then have len: "length cs = length ?nbs" by (rule list_all2_lengthD)
  from A i have "card_of_block vr mp dk bt c (?nbs ! i)"
    by (auto dest: list_all2_nthD)
  moreover have "?nbs ! i \<in> set ?nbs" using i len by (metis nth_mem)
  ultimately show ?thesis by auto
qed

lemma blocks_questions: "map fst (snd (blocks ls)) = filter is_question ls"
  by (induction ls) (auto split: prod.splits)

lemma blocks_concat:
  "fst (blocks ls) @ concat (map (\<lambda>b. fst b # snd b) (snd (blocks ls))) = ls"
  by (induction ls) (auto split: prod.splits)

lemma blocks_preamble: "l \<in> set (fst (blocks ls)) \<Longrightarrow> \<not> is_question l"
  by (induction ls) (auto split: prod.splits if_splits)

lemma blocks_body:
  "b \<in> set (snd (blocks ls)) \<Longrightarrow> is_question (fst b) \<and> (\<forall>l\<in>set (snd b). \<not> is_question l)"
proof (induction ls arbitrary: b)
  case Nil
  then show ?case by simp
next
  case (Cons l ls)
  obtain pre bs where B: "blocks ls = (pre, bs)" by (cases "blocks ls")
  show ?case
  proof (cases "is_question l")
    case True
    with Cons.prems B have "b = (l, pre) \<or> b \<in> set bs" by simp
    then show ?thesis
    proof
      assume "b = (l, pre)"
      moreover have "\<forall>x\<in>set pre. \<not> is_question x"
        using blocks_preamble[of _ ls] B by simp
      ultimately show ?thesis using True by simp
    next
      assume "b \<in> set bs"
      with Cons.IH[of b] B show ?thesis by simp
    qed
  next
    case False
    with Cons.prems B have "b \<in> set bs" by simp
    with Cons.IH[of b] B show ?thesis by simp
  qed
qed

lemma number_from_fst: "map fst (number_from n bs) = [n..n + int (length bs) - 1]"
  by (simp add: number_from_def)

lemma number_from_snd: "map snd (number_from n bs) = bs"
  by (simp add: number_from_def)

lemma numbered_blocks_numbers:
  "map fst (numbered_blocks ls) = [1..int (length (filter is_question ls))]"
proof -
  have "length (snd (blocks ls)) = length (filter is_question ls)"
    by (metis blocks_questions length_map)
  then show ?thesis by (simp add: numbered_blocks_def number_from_fst)
qed

lemma numbered_blocks_questions:
  "map (\<lambda>nb. fst (snd nb)) (numbered_blocks ls) = filter is_question ls"
proof -
  have "map (\<lambda>nb. fst (snd nb)) (numbered_blocks ls) = map fst (map snd (numbered_blocks ls))"
    by simp
  also have "\<dots> = map fst (snd (blocks ls))"
    by (simp only: numbered_blocks_def number_from_snd)
  finally show ?thesis by (simp add: blocks_questions)
qed

lemma numbered_blocks_bodies:
  "map snd (numbered_blocks ls) = snd (blocks ls)"
  by (simp only: numbered_blocks_def number_from_snd)

lemma list_all2_weaken:
  "list_all2 P xs ys \<Longrightarrow> (\<And>x y. P x y \<Longrightarrow> Q x y) \<Longrightarrow> list_all2 Q xs ys"
  by (erule list_all2_mono)

lemma numbered_blocks_partition:
  "fst (blocks ls) @ concat (map (\<lambda>nb. fst (snd nb) # snd (snd nb)) (numbered_blocks ls)) = ls"
proof -
  have "map (\<lambda>nb. fst (snd nb) # snd (snd nb)) (numbered_blocks ls) =
      map (\<lambda>b. fst b # snd b) (map snd (numbered_blocks ls))"
    by simp
  then show ?thesis
    by (simp only: numbered_blocks_bodies blocks_concat)
qed

lemma numbered_blocks_body:
  assumes "nb \<in> set (numbered_blocks ls)"
  shows "is_question (fst (snd nb)) \<and> (\<forall>l\<in>set (snd (snd nb)). \<not> is_question l)"
proof -
  from assms have "snd nb \<in> set (map snd (numbered_blocks ls))" by simp
  then have "snd nb \<in> set (snd (blocks ls))" by (simp only: numbered_blocks_bodies)
  then show ?thesis by (rule blocks_body)
qed

lemma answer_lines_empty_iff:
  "answer_lines body = [] \<longleftrightarrow>
     (\<forall>l\<in>set (dropWhile (\<lambda>l. \<not> is_answer l) body). is_answer l \<and> answer_rest l = [])"
proof -
  have P: "\<And>l. piece l = [] \<longleftrightarrow> is_answer l \<and> answer_rest l = []"
    by (simp add: piece_def)
  show ?thesis
    by (simp add: answer_lines_def collected_def P)
qed

lemma answer_lines_no_marker:
  assumes "\<forall>l\<in>set body. \<not> is_answer l"
  shows "answer_lines body = []"
proof -
  from assms have "dropWhile (\<lambda>l. \<not> is_answer l) body = []"
    by (simp add: dropWhile_eq_Nil_conv)
  then show ?thesis
    by (simp only: answer_lines_def collected_def if_False list.map concat.simps)
qed

lemma block_cards_unanswered:
  "\<forall>b\<in>set bs. answer_lines (snd b) = [] \<Longrightarrow> block_cards vr mp dk bt n bs = Inr []"
  by (induction bs arbitrary: n) (simp_all add: mk_card_def)

lemma blocks_body_lines:
  assumes "b \<in> set (snd (blocks ls))" "l \<in> set (snd b)"
  shows "l \<in> set ls"
proof -
  have "l \<in> set (fst (blocks ls) @ concat (map (\<lambda>b. fst b # snd b) (snd (blocks ls))))"
    using assms by auto
  then show ?thesis by (simp only: blocks_concat)
qed

lemma extract_no_answer_marker:
  assumes "\<forall>l\<in>set (splitlines text). \<not> is_answer l"
  shows "extract_cards_from_markdown vr mp dk bt text = Inr []"
proof -
  have "\<forall>b\<in>set (snd (blocks (splitlines text))). answer_lines (snd b) = []"
    using assms blocks_body_lines by (blast intro: answer_lines_no_marker)
  then show ?thesis
    by (simp add: extract_eq_block_cards block_cards_unanswered)
qed

lemmas scan_eval = extract_eq_block_cards splitlines_def lit_def is_linebreak_def is_question_def
  startswith_def answer_lines_def collected_def piece_def is_answer_def answer_rest_def lstrip_def
  question_text_def strip_def rstrip_def is_space_def mk_card_def

lemma ex_blank_extract:
  "extract_cards_from_markdown ex_root ex_path ex_deck ex_base_tags
     (lit ''Q:: x\<newline>A::\<newline>\<newline>'') = Inr [ex_blank_card]"
  using ex_id_x by (simp add: scan_eval ex_blank_card_def)

lemma ex_blank_blocks:
  "numbered_blocks (splitlines (lit ''Q:: x\<newline>A::\<newline>\<newline>'')) =
     [(1, lit ''Q:: x'', [lit ''A::'', []])]"
proof -
  have L: "splitlines (lit ''Q:: x\<newline>A::\<newline>\<newline>'') = [lit ''Q:: x'', lit ''A::'', []]"
    by (simp add: splitlines_def lit_def is_linebreak_def)
  have B: "blocks [lit ''Q:: x'', lit ''A::'', []] = ([], [(lit ''Q:: x'', [lit ''A::'', []])])"
    by (simp add: is_question_def startswith_def lit_def)
  show ?thesis
    by (simp only: L numbered_blocks_def B snd_conv number_from_Cons number_from_Nil)
qed

lemma ex_blank_answered: "answered (1, lit ''Q:: x'', [lit ''A::'', []])"
  by (simp add: answered_def answer_lines_def collected_def piece_def is_answer_def
      answer_rest_def startswith_def lstrip_def lit_def)

lemma ex_id_3_as_2:
  "stable_id_tag ex_root ex_path (lit ''Capital of France?'') 2 = Inr (lit ''ankivert_id_3865a4bcb3b6'')"
  by (simp add: ex_root_def ex_path_def id_eval str_eval sha1_eval)

text \<open>
  Which questions the scanner drops: the cards are the blocks that collect at least one
  answer line; a block collects none when it has no answer marker, or when from its first
  answer marker on every line is an answer marker with only white space after it; a file
  without any answer marker gives no cards.
\<close>

lemma questions_without_answer_lines_dropped:
  "(extract_cards_from_markdown vault_root md_path dk base_tags text = Inr cs \<longrightarrow>
      map front cs =
        map (\<lambda>nb. question_text (fst (snd nb)))
          (filter (\<lambda>nb. answer_lines (snd (snd nb)) \<noteq> []) (numbered_blocks (splitlines text)))) \<and>
   (answer_lines body = [] \<longleftrightarrow>
      (\<forall>l\<in>set (dropWhile (\<lambda>l. \<not> is_answer l) body). is_answer l \<and> answer_rest l = [])) \<and>
   ((\<forall>l\<in>set (splitlines text). \<not> is_answer l) \<longrightarrow>
      extract_cards_from_markdown vault_root md_path dk base_tags text = Inr [])"
proof (intro conjI impI)
  assume ex: "extract_cards_from_markdown vault_root md_path dk base_tags text = Inr cs"
  have "list_all2 (\<lambda>c nb. front c = question_text (fst (snd nb))) cs
      (filter answered (numbered_blocks (splitlines text)))"
  proof (rule list_all2_weaken[OF extract_all2[OF ex]])
    fix c nb
    assume "card_of_block vault_root md_path dk base_tags c nb"
    then show "front c = question_text (fst (snd nb))"
      unfolding card_of_block_def by (metis card.select_convs(2))
  qed
  then have "map front cs =
      map (\<lambda>nb. question_text (fst (snd nb))) (filter answered (numbered_blocks (splitlines text)))"
    by (induction rule: list_all2_induct) simp_all
  moreover have "answered = (\<lambda>nb. answer_lines (snd (snd nb)) \<noteq> [])"
    by (rule ext) (simp add: answered_def)
  ultimately show "map front cs =
        map (\<lambda>nb. question_text (fst (snd nb)))
          (filter (\<lambda>nb. answer_lines (snd (snd nb)) \<noteq> []) (numbered_blocks (splitlines text)))"
    by simp
next
  show "answer_lines body = [] \<longleftrightarrow>
      (\<forall>l\<in>set (dropWhile (\<lambda>l. \<not> is_answer l) body). is_answer l \<and> answer_rest l = [])"
    by (rule answer_lines_empty_iff)
next
  assume "\<forall>l\<in>set (splitlines text). \<not> is_answer l"
  then show "extract_cards_from_markdown vault_root md_path dk base_tags text = Inr []"
    by (rule extract_no_answer_marker)
qed

section \<open>Runs of the client\<close>

lemma ankiconnect_eq:
  "ankiconnect respond act ps w =
     (reply_result (fst (respond (remote w) (payload_of act ps))),
      w\<lparr>remote := snd (respond (remote w) (payload_of act ps)),
        calls := calls w @ [(payload_of act ps, fst (respond (remote w) (payload_of act ps)))]\<rparr>)"
  by (simp add: ankiconnect_def payload_of_def Let_def)

lemma add_or_update_dry:
  "add_or_update_basic_note respond sti c True w = (Inr (), w\<lparr>out := out w @ [dry_entry c]\<rparr>)"
  by (simp add: add_or_update_basic_note_def dry_entry_def)



lemma reply_failed_iff: "reply_failed rep \<longleftrightarrow> isl (reply_result rep)"
  by (auto simp: reply_failed_def reply_result_def split: reply.splits option.splits json.splits)

lemma run_ok_refl: "run_ok w b w"
  by (simp add: run_ok_def)

lemma run_ok_out: "run_ok w b w' \<Longrightarrow> run_ok w b (w'\<lparr>out := x\<rparr>)"
  by (simp add: run_ok_def)

lemma run_ok_out_left: "run_ok w b w' \<Longrightarrow> run_ok (w\<lparr>out := x\<rparr>) b w'"
  by (simp add: run_ok_def)

lemma run_ok_raise: "run_ok w b w' \<Longrightarrow> run_ok w True w'"
  by (auto simp: run_ok_def)

lemma run_ok_seq:
  assumes "run_ok w False w1" "run_ok w1 b w2"
  shows "run_ok w b w2"
proof -
  from assms(1) obtain n1 where n1: "calls w1 = calls w @ n1"
    "\<forall>c\<in>set (butlast n1). \<not> reply_failed (snd c)"
    "n1 \<noteq> [] \<longrightarrow> \<not> reply_failed (snd (last n1))"
    by (auto simp: run_ok_def)
  from assms(2) obtain n2 where n2: "calls w2 = calls w1 @ n2"
    "\<forall>c\<in>set (butlast n2). \<not> reply_failed (snd c)"
    "n2 \<noteq> [] \<and> reply_failed (snd (last n2)) \<longrightarrow> b"
    by (auto simp: run_ok_def)
  have all1: "\<forall>c\<in>set n1. \<not> reply_failed (snd c)"
  proof (cases "n1 = []")
    case True
    then show ?thesis by simp
  next
    case False
    then have "n1 = butlast n1 @ [last n1]" by simp
    then have "set n1 = set (butlast n1) \<union> {last n1}"
      by (metis Un_insert_right list.simps(15) set_append sup_bot.right_neutral empty_set)
    with n1(2,3) False show ?thesis by auto
  qed
  show ?thesis
  proof (cases "n2 = []")
    case True
    with n1 n2 all1 have "calls w2 = calls w @ n1" by simp
    moreover have "\<forall>c\<in>set (butlast n1). \<not> reply_failed (snd c)" by (rule n1(2))
    moreover have "n1 \<noteq> [] \<and> reply_failed (snd (last n1)) \<longrightarrow> b" using n1(3) by blast
    ultimately show ?thesis unfolding run_ok_def by blast
  next
    case False
    have "calls w2 = calls w @ (n1 @ n2)" using n1(1) n2(1) by simp
    moreover have "butlast (n1 @ n2) = n1 @ butlast n2" using False by (simp add: butlast_append)
    then have "\<forall>c\<in>set (butlast (n1 @ n2)). \<not> reply_failed (snd c)"
      using all1 n2(2) by auto
    moreover have "last (n1 @ n2) = last n2" using False by simp
    then have "n1 @ n2 \<noteq> [] \<and> reply_failed (snd (last (n1 @ n2))) \<longrightarrow> b"
      using n2(3) False by simp
    ultimately show ?thesis unfolding run_ok_def by blast
  qed
qed

lemma run_ok_ankiconnect:
  assumes "ankiconnect respond act ps w = (res, w')"
  shows "run_ok w (isl res) w'"
proof -
  let ?rep = "fst (respond (remote w) (payload_of act ps))"
  from assms have res: "res = reply_result ?rep"
    and w': "calls w' = calls w @ [(payload_of act ps, ?rep)]"
    by (auto simp: ankiconnect_eq)
  have "\<forall>c\<in>set (butlast [(payload_of act ps, ?rep)]). \<not> reply_failed (snd c)" by simp
  moreover have "[(payload_of act ps, ?rep)] \<noteq> [] \<and>
      reply_failed (snd (last [(payload_of act ps, ?rep)])) \<longrightarrow> isl res"
    by (simp add: res reply_failed_iff)
  ultimately show ?thesis unfolding run_ok_def using w' by blast
qed

lemma run_ok_ensure_deck:
  assumes "ensure_deck respond d w = (res, w')"
  shows "run_ok w (isl res) w'"
proof -
  obtain r1 w1 where A: "ankiconnect respond (lit ''createDeck'') (JObj [(lit ''deck'', JStr d)]) w = (r1, w1)"
    by (cases "ankiconnect respond (lit ''createDeck'') (JObj [(lit ''deck'', JStr d)]) w")
  from assms A have "w' = w1" "isl res = isl r1"
    by (auto simp: ensure_deck_def split: sum.splits)
  with run_ok_ankiconnect[OF A] show ?thesis by simp
qed

lemma run_ok_find:
  assumes "find_note_id_by_tag respond sti tag w = (res, w')"
  shows "run_ok w (isl res) w'"
proof -
  obtain r1 w1 where A: "ankiconnect respond (lit ''findNotes'') (find_request tag) w = (r1, w1)"
    by (cases "ankiconnect respond (lit ''findNotes'') (find_request tag) w")
  from assms A have "w' = w1" "isl r1 \<longrightarrow> isl res"
    by (auto simp: find_note_id_by_tag_def split: sum.splits)
  with run_ok_ankiconnect[OF A] show ?thesis
    by (cases "isl r1") (auto intro: run_ok_raise simp: run_ok_def)
qed

lemma run_ok_add_note:
  assumes "add_note respond c w = (res, w')"
  shows "run_ok w (isl res) w'"
proof -
  obtain r1 w1 where A: "ankiconnect respond (lit ''addNote'') (add_note_params c) w = (r1, w1)"
    by (cases "ankiconnect respond (lit ''addNote'') (add_note_params c) w")
  show ?thesis
  proof (cases r1)
    case (Inl e)
    with assms A have "w' = w1" "res = Inl e" by (auto simp: add_note_def)
    with run_ok_ankiconnect[OF A] Inl show ?thesis by simp
  next
    case (Inr v)
    with assms A have "w' = w1\<lparr>out := out w1 @ [LogAdd v (deck c) (stable_tag c)]\<rparr>" "res = Inr ()"
      by (auto simp: add_note_def)
    with run_ok_ankiconnect[OF A] Inr show ?thesis by (simp add: run_ok_out)
  qed
qed

lemma run_ok_update_note:
  assumes "update_note respond n c w = (res, w')"
  shows "run_ok w (isl res) w'"
proof -
  obtain r1 w1 where A: "ankiconnect respond (lit ''updateNoteFields'') (update_params n c) w = (r1, w1)"
    by (cases "ankiconnect respond (lit ''updateNoteFields'') (update_params n c) w")
  show ?thesis
  proof (cases r1)
    case (Inl e)
    with assms A have "w' = w1" "res = Inl e" by (auto simp: update_note_def)
    with run_ok_ankiconnect[OF A] Inl show ?thesis by simp
  next
    case (Inr v)
    obtain r2 w2 where B: "ankiconnect respond (lit ''addTags'') (add_tags_params n c) w1 = (r2, w2)"
      by (cases "ankiconnect respond (lit ''addTags'') (add_tags_params n c) w1")
    from run_ok_ankiconnect[OF A] Inr have one: "run_ok w False w1" by simp
    show ?thesis
    proof (cases r2)
      case (Inl e)
      with assms A B Inr have "w' = w2" "res = Inl e" by (auto simp: update_note_def)
      with run_ok_seq[OF one run_ok_ankiconnect[OF B]] Inl show ?thesis by simp
    next
      case (Inr v2)
      with assms A B \<open>r1 = Inr v\<close>
      have "w' = w2\<lparr>out := out w2 @ [LogUpd n (deck c) (stable_tag c)]\<rparr>" "res = Inr ()"
        by (auto simp: update_note_def)
      with run_ok_seq[OF one run_ok_ankiconnect[OF B]] Inr show ?thesis by (simp add: run_ok_out)
    qed
  qed
qed

lemma run_ok_add_or_update:
  assumes "add_or_update_basic_note respond sti c dry_run w = (res, w')"
  shows "run_ok w (isl res) w'"
proof (cases dry_run)
  case True
  with assms have "w' = w\<lparr>out := out w @ [dry_entry c]\<rparr>" "res = Inr ()"
    by (simp_all add: add_or_update_dry)
  then show ?thesis by (simp add: run_ok_out run_ok_refl)
next
  case False
  obtain r1 w1 where A: "find_note_id_by_tag respond sti (stable_tag c) w = (r1, w1)"
    by (cases "find_note_id_by_tag respond sti (stable_tag c) w")
  show ?thesis
  proof (cases r1)
    case (Inl e)
    with assms A False have "w' = w1" "res = Inl e"
      by (auto simp: add_or_update_basic_note_def)
    with run_ok_find[OF A] Inl show ?thesis by simp
  next
    case (Inr found)
    from run_ok_find[OF A] Inr have one: "run_ok w False w1" by simp
    show ?thesis
    proof (cases found)
      case None
      with assms A False Inr have B: "add_note respond c w1 = (res, w')"
        by (auto simp: add_or_update_basic_note_def)
      from run_ok_seq[OF one run_ok_add_note[OF B]] show ?thesis .
    next
      case (Some n)
      with assms A False Inr have B: "update_note respond n c w1 = (res, w')"
        by (auto simp: add_or_update_basic_note_def)
      from run_ok_seq[OF one run_ok_update_note[OF B]] show ?thesis .
    qed
  qed
qed

lemma run_ok_ensure_decks:
  "ensure_decks respond ds w = (res, w') \<Longrightarrow> run_ok w (isl res) w'"
proof (induction ds arbitrary: w)
  case Nil
  then show ?case by (auto simp: run_ok_refl)
next
  case (Cons d ds)
  obtain r1 w1 where A: "ensure_deck respond d w = (r1, w1)"
    by (cases "ensure_deck respond d w")
  show ?case
  proof (cases r1)
    case (Inl e)
    with Cons.prems A have "w' = w1" "res = Inl e" by auto
    with run_ok_ensure_deck[OF A] Inl show ?thesis by simp
  next
    case (Inr u)
    with Cons.prems A have B: "ensure_decks respond ds w1 = (res, w')" by auto
    from run_ok_ensure_deck[OF A] Inr have "run_ok w False w1" by simp
    from run_ok_seq[OF this Cons.IH[OF B]] show ?thesis .
  qed
qed

lemma run_ok_add_or_update_all:
  "add_or_update_all respond sti dry_run cs w = (res, w') \<Longrightarrow> run_ok w (isl res) w'"
proof (induction cs arbitrary: w)
  case Nil
  then show ?case by (auto simp: run_ok_refl)
next
  case (Cons c cs)
  obtain r1 w1 where A: "add_or_update_basic_note respond sti c dry_run w = (r1, w1)"
    by (cases "add_or_update_basic_note respond sti c dry_run w")
  show ?case
  proof (cases r1)
    case (Inl e)
    with Cons.prems A have "w' = w1" "res = Inl e" by auto
    with run_ok_add_or_update[OF A] Inl show ?thesis by simp
  next
    case (Inr u)
    with Cons.prems A have B: "add_or_update_all respond sti dry_run cs w1 = (res, w')" by auto
    from run_ok_add_or_update[OF A] Inr have "run_ok w False w1" by simp
    from run_ok_seq[OF this Cons.IH[OF B]] show ?thesis .
  qed
qed

lemma run_ok_sync_cards:
  assumes "sync_cards respond sti dry_run cs w = (res, w')"
  shows "run_ok w (isl res) w'"
proof (cases dry_run)
  case True
  with assms have "add_or_update_all respond sti dry_run cs w = (res, w')"
    by (simp add: sync_cards_def)
  then show ?thesis by (rule run_ok_add_or_update_all)
next
  case False
  obtain r1 w1 where A: "ensure_decks respond (sort (remdups (map deck cs))) w = (r1, w1)"
    by (cases "ensure_decks respond (sort (remdups (map deck cs))) w")
  show ?thesis
  proof (cases r1)
    case (Inl e)
    with assms A False have "w' = w1" "res = Inl e" by (auto simp: sync_cards_def)
    with run_ok_ensure_decks[OF A] Inl show ?thesis by simp
  next
    case (Inr u)
    with assms A False have B: "add_or_update_all respond sti dry_run cs w1 = (res, w')"
      by (auto simp: sync_cards_def)
    from run_ok_ensure_decks[OF A] Inr have "run_ok w False w1" by simp
    from run_ok_seq[OF this run_ok_add_or_update_all[OF B]] show ?thesis .
  qed
qed

lemma run_ok_main_sync:
  assumes "main_sync respond sti vault files dry_run w = (res, w')"
  shows "run_ok w (isl res) w'"
proof (cases "collect_cards vault files")
  case (Inl e)
  with assms have "w' = w" by (simp add: main_sync_def)
  then show ?thesis by (simp add: run_ok_refl)
next
  case (Inr cs)
  with assms have "sync_cards respond sti dry_run cs (w\<lparr>out := out w @ [LogTotal (length cs)]\<rparr>) = (res, w')"
    by (simp add: main_sync_def)
  from run_ok_sync_cards[OF this] show ?thesis by (simp add: run_ok_def)
qed

lemma run_ok_index:
  assumes "run_ok w b w'"
  shows "calls w' = calls w @ new_calls w w' \<and>
     (\<forall>i<length (new_calls w w'). reply_failed (snd (new_calls w w' ! i)) \<longrightarrow>
        b \<and> Suc i = length (new_calls w w'))"
proof -
  from assms obtain new where n: "calls w' = calls w @ new"
    "\<forall>c\<in>set (butlast new). \<not> reply_failed (snd c)"
    "new \<noteq> [] \<and> reply_failed (snd (last new)) \<longrightarrow> b"
    by (auto simp: run_ok_def)
  have nc: "new_calls w w' = new" by (simp add: new_calls_def n(1))
  have "\<forall>i<length new. reply_failed (snd (new ! i)) \<longrightarrow> b \<and> Suc i = length new"
  proof (intro allI impI)
    fix i assume i: "i < length new" and f: "reply_failed (snd (new ! i))"
    have "\<not> i < length (butlast new)"
    proof
      assume "i < length (butlast new)"
      then have "butlast new ! i \<in> set (butlast new)" by (rule nth_mem)
      moreover have "butlast new ! i = new ! i"
        using \<open>i < length (butlast new)\<close> by (rule nth_butlast)
      ultimately show False using n(2) f by auto
    qed
    with i have s: "Suc i = length new" by simp
    have "new \<noteq> []" using i by auto
    then have "last new = new ! (length new - 1)" by (rule last_conv_nth)
    with s have "new ! i = last new" by (metis diff_Suc_1)
    with f n(3) i have b by auto
    with s show "b \<and> Suc i = length new" by simp
  qed
  with nc n(1) show ?thesis by simp
qed

lemma ex_collect: "collect_cards ex_root ex_files = Inr [ex_card1, ex_card3]"
proof -
  have D: "build_deck_name ex_root (lit ''math250'') = ex_deck"
    by (simp add: build_deck_name_def path_name_def ex_root_def ex_deck_def is_absolute_def lit_def)
  have T: "[lit ''math250'', path_name ex_root] = ex_base_tags"
    by (simp add: path_name_def ex_root_def ex_base_tags_def is_absolute_def lit_def)
  show ?thesis
    by (simp only: ex_files_def collect_cards.simps D T ex_extract sum.case append_Nil2)
qed

lemma ex_deck_1: "deck ex_card1 = ex_deck"
  by (simp add: ex_card1_def ex_deck_def)

lemma ex_deck_3: "deck ex_card3 = ex_deck"
  by (simp add: ex_card3_def ex_deck_def)

lemma moved_result: "reply_result moved_reply = Inr JNull"
  by (simp add: moved_reply_def reply_result_def dict_get_def lit_def)

lemma ankiconnect_moved:
  "ankiconnect moved_remote act ps w =
     (Inr JNull, w\<lparr>calls := calls w @ [(payload_of act ps, moved_reply)]\<rparr>)"
  by (simp add: ankiconnect_eq moved_remote_def moved_result)

lemma add_or_update_moved:
  "add_or_update_basic_note moved_remote sti c False w =
     (Inr (), w\<lparr>calls := calls w @
        [(payload_of (lit ''findNotes'') (find_request (stable_tag c)), moved_reply),
         (payload_of (lit ''addNote'') (add_note_params c), moved_reply)],
        out := out w @ [LogAdd JNull (deck c) (stable_tag c)]\<rparr>)"
  by (simp add: add_or_update_basic_note_def find_note_id_by_tag_def add_note_def ankiconnect_moved)

lemma ensure_deck_moved:
  "ensure_deck moved_remote d w =
     (Inr (), w\<lparr>calls := calls w @ [(payload_of (lit ''createDeck'') (JObj [(lit ''deck'', JStr d)]), moved_reply)]\<rparr>)"
  by (simp add: ensure_deck_def ankiconnect_moved)

lemma moved_run:
  "fst (main_sync moved_remote no_str_to_int ex_root ex_files False (w0 ())) = Inr () \<and>
   map snd (calls (snd (main_sync moved_remote no_str_to_int ex_root ex_files False (w0 ())))) =
     [moved_reply, moved_reply, moved_reply, moved_reply, moved_reply]"
  by (simp add: main_sync_def ex_collect sync_cards_def ex_deck_1 ex_deck_3 ensure_deck_moved
      add_or_update_moved w0_def)

lemma broken_result: "reply_result (Reply 500 None) = Inl (HTTPError 500)"
  by (simp add: reply_result_def)

lemma ankiconnect_broken:
  "ankiconnect broken_remote act ps w =
     (Inl (HTTPError 500), w\<lparr>calls := calls w @ [(payload_of act ps, Reply 500 None)]\<rparr>)"
  by (simp add: ankiconnect_eq broken_remote_def broken_result)

lemma broken_run:
  "main_sync broken_remote no_str_to_int ex_root ex_files False (w0 ()) =
     (Inl (HTTPError 500),
      \<lparr>remote = (),
       calls = [(payload_of (lit ''createDeck'') (JObj [(lit ''deck'', JStr ex_deck)]), Reply 500 None)],
       out = [LogTotal 2]\<rparr>)"
  by (simp add: main_sync_def ex_collect sync_cards_def ex_deck_1 ex_deck_3 ensure_deck_def
      ankiconnect_broken w0_def)

section \<open>Tags found and runs that only update\<close>

lemma action_payload_of: "action (payload_of act ps) = act"
  by (simp add: payload_of_def)

lemma ankiconnect_remote:
  "ankiconnect respond act ps w = (res, w') \<Longrightarrow>
     remote w' = snd (respond (remote w) (payload_of act ps))"
  by (auto simp: ankiconnect_eq)

lemma ankiconnect_calls:
  "ankiconnect respond act ps w = (res, w') \<Longrightarrow>
     calls w' = calls w @ [(payload_of act ps, fst (respond (remote w) (payload_of act ps)))]"
  by (auto simp: ankiconnect_eq)

lemma ankiconnect_res:
  "ankiconnect respond act ps w = (res, w') \<Longrightarrow>
     res = reply_result (fst (respond (remote w) (payload_of act ps)))"
  by (auto simp: ankiconnect_eq)

lemma tag_keepingD2:
  assumes "tag_keeping respond sti" "act \<in> set program_actions" "finds respond sti r t"
  shows "finds respond sti (snd (respond r (payload_of act ps))) t"
  using assms unfolding tag_keeping_def by (metis action_payload_of)

lemma tag_keepingD1:
  assumes "tag_keeping respond sti"
    "\<not> reply_failed (fst (respond r (payload_of (lit ''addNote'') (add_note_params c))))"
    "t \<in> set (tags c)"
  shows "finds respond sti (snd (respond r (payload_of (lit ''addNote'') (add_note_params c)))) t"
  using assms unfolding tag_keeping_def by blast

lemma program_actions_mem:
  "lit ''createDeck'' \<in> set program_actions" "lit ''findNotes'' \<in> set program_actions"
  "lit ''addNote'' \<in> set program_actions" "lit ''updateNoteFields'' \<in> set program_actions"
  "lit ''addTags'' \<in> set program_actions"
  by (simp_all add: program_actions_def)

lemma finds_ankiconnect:
  assumes "tag_keeping respond sti" "act \<in> set program_actions"
    "finds respond sti (remote w) t" "ankiconnect respond act ps w = (res, w')"
  shows "finds respond sti (remote w') t"
  using tag_keepingD2[OF assms(1,2,3)] ankiconnect_remote[OF assms(4)] by simp

lemma finds_ensure_deck:
  assumes "tag_keeping respond sti" "finds respond sti (remote w) t"
    "ensure_deck respond d w = (res, w')"
  shows "finds respond sti (remote w') t"
proof -
  obtain r1 w1 where A: "ankiconnect respond (lit ''createDeck'') (JObj [(lit ''deck'', JStr d)]) w = (r1, w1)"
    by (cases "ankiconnect respond (lit ''createDeck'') (JObj [(lit ''deck'', JStr d)]) w")
  from assms(3) A have "w' = w1" by (auto simp: ensure_deck_def split: sum.splits)
  with finds_ankiconnect[OF assms(1) program_actions_mem(1) assms(2) A] show ?thesis by simp
qed

lemma finds_find:
  assumes "tag_keeping respond sti" "finds respond sti (remote w) t"
    "find_note_id_by_tag respond sti tag w = (res, w')"
  shows "finds respond sti (remote w') t"
proof -
  obtain r1 w1 where A: "ankiconnect respond (lit ''findNotes'') (find_request tag) w = (r1, w1)"
    by (cases "ankiconnect respond (lit ''findNotes'') (find_request tag) w")
  from assms(3) A have "w' = w1" by (auto simp: find_note_id_by_tag_def split: sum.splits)
  with finds_ankiconnect[OF assms(1) program_actions_mem(2) assms(2) A] show ?thesis by simp
qed

lemma find_result:
  assumes "find_note_id_by_tag respond sti tag w = (res, w')"
  shows "res = lookup sti (fst (respond (remote w) (payload_of (lit ''findNotes'') (find_request tag))))"
    and "calls w' = calls w @ [(payload_of (lit ''findNotes'') (find_request tag),
           fst (respond (remote w) (payload_of (lit ''findNotes'') (find_request tag))))]"
    and "out w' = out w"
proof -
  obtain r1 w1 where A: "ankiconnect respond (lit ''findNotes'') (find_request tag) w = (r1, w1)"
    by (cases "ankiconnect respond (lit ''findNotes'') (find_request tag) w")
  from assms A have w: "w' = w1" and r: "res = (case r1 of Inl e \<Rightarrow> Inl e | Inr ids \<Rightarrow> first_note_id sti ids)"
    by (auto simp: find_note_id_by_tag_def split: sum.splits)
  from r ankiconnect_res[OF A]
  show "res = lookup sti (fst (respond (remote w) (payload_of (lit ''findNotes'') (find_request tag))))"
    by (simp add: lookup_def)
  from w ankiconnect_calls[OF A]
  show "calls w' = calls w @ [(payload_of (lit ''findNotes'') (find_request tag),
           fst (respond (remote w) (payload_of (lit ''findNotes'') (find_request tag))))]"
    by simp
  from w A show "out w' = out w" by (auto simp: ankiconnect_eq)
qed

lemma finds_add_note:
  assumes "tag_keeping respond sti" "finds respond sti (remote w) t"
    "add_note respond c w = (res, w')"
  shows "finds respond sti (remote w') t"
proof -
  obtain r1 w1 where A: "ankiconnect respond (lit ''addNote'') (add_note_params c) w = (r1, w1)"
    by (cases "ankiconnect respond (lit ''addNote'') (add_note_params c) w")
  from assms(3) A have "remote w' = remote w1" by (auto simp: add_note_def split: sum.splits)
  with finds_ankiconnect[OF assms(1) program_actions_mem(3) assms(2) A] show ?thesis by simp
qed

lemma finds_update_note:
  assumes "tag_keeping respond sti" "finds respond sti (remote w) t"
    "update_note respond n c w = (res, w')"
  shows "finds respond sti (remote w') t"
proof -
  obtain r1 w1 where A: "ankiconnect respond (lit ''updateNoteFields'') (update_params n c) w = (r1, w1)"
    by (cases "ankiconnect respond (lit ''updateNoteFields'') (update_params n c) w")
  note F1 = finds_ankiconnect[OF assms(1) program_actions_mem(4) assms(2) A]
  show ?thesis
  proof (cases r1)
    case (Inl e)
    with assms(3) A have "w' = w1" by (auto simp: update_note_def)
    with F1 show ?thesis by simp
  next
    case (Inr v)
    obtain r2 w2 where B: "ankiconnect respond (lit ''addTags'') (add_tags_params n c) w1 = (r2, w2)"
      by (cases "ankiconnect respond (lit ''addTags'') (add_tags_params n c) w1")
    from assms(3) A B Inr have "remote w' = remote w2"
      by (auto simp: update_note_def split: sum.splits)
    with finds_ankiconnect[OF assms(1) program_actions_mem(5) F1 B] show ?thesis by simp
  qed
qed

lemma finds_add_or_update:
  assumes "tag_keeping respond sti" "finds respond sti (remote w) t"
    "add_or_update_basic_note respond sti c False w = (res, w')"
  shows "finds respond sti (remote w') t"
proof -
  obtain r1 w1 where A: "find_note_id_by_tag respond sti (stable_tag c) w = (r1, w1)"
    by (cases "find_note_id_by_tag respond sti (stable_tag c) w")
  note F1 = finds_find[OF assms(1,2) A]
  show ?thesis
  proof (cases r1)
    case (Inl e)
    with assms(3) A have "w' = w1" by (auto simp: add_or_update_basic_note_def)
    with F1 show ?thesis by simp
  next
    case (Inr found)
    show ?thesis
    proof (cases found)
      case None
      with assms(3) A Inr have "add_note respond c w1 = (res, w')"
        by (auto simp: add_or_update_basic_note_def)
      from finds_add_note[OF assms(1) F1 this] show ?thesis .
    next
      case (Some n)
      with assms(3) A Inr have "update_note respond n c w1 = (res, w')"
        by (auto simp: add_or_update_basic_note_def)
      from finds_update_note[OF assms(1) F1 this] show ?thesis .
    qed
  qed
qed

lemma finds_ensure_decks:
  "tag_keeping respond sti \<Longrightarrow> finds respond sti (remote w) t \<Longrightarrow>
   ensure_decks respond ds w = (res, w') \<Longrightarrow> finds respond sti (remote w') t"
proof (induction ds arbitrary: w)
  case Nil
  then show ?case by auto
next
  case (Cons d ds)
  obtain r1 w1 where A: "ensure_deck respond d w = (r1, w1)"
    by (cases "ensure_deck respond d w")
  note F1 = finds_ensure_deck[OF Cons.prems(1,2) A]
  show ?case
  proof (cases r1)
    case (Inl e)
    with Cons.prems(3) A have "w' = w1" by auto
    with F1 show ?thesis by simp
  next
    case (Inr u)
    with Cons.prems(3) A have "ensure_decks respond ds w1 = (res, w')" by auto
    from Cons.IH[OF Cons.prems(1) F1 this] show ?thesis .
  qed
qed

lemma finds_add_or_update_all:
  "tag_keeping respond sti \<Longrightarrow> finds respond sti (remote w) t \<Longrightarrow>
   add_or_update_all respond sti False cs w = (res, w') \<Longrightarrow> finds respond sti (remote w') t"
proof (induction cs arbitrary: w)
  case Nil
  then show ?case by auto
next
  case (Cons c cs)
  obtain r1 w1 where A: "add_or_update_basic_note respond sti c False w = (r1, w1)"
    by (cases "add_or_update_basic_note respond sti c False w")
  note F1 = finds_add_or_update[OF Cons.prems(1,2) A]
  show ?case
  proof (cases r1)
    case (Inl e)
    with Cons.prems(3) A have "w' = w1" by auto
    with F1 show ?thesis by simp
  next
    case (Inr u)
    with Cons.prems(3) A have "add_or_update_all respond sti False cs w1 = (res, w')" by auto
    from Cons.IH[OF Cons.prems(1) F1 this] show ?thesis .
  qed
qed

lemma established_add_note:
  assumes "tag_keeping respond sti" "t \<in> set (tags c)" "add_note respond c w = (Inr u, w')"
  shows "finds respond sti (remote w') t"
proof -
  obtain r1 w1 where A: "ankiconnect respond (lit ''addNote'') (add_note_params c) w = (r1, w1)"
    by (cases "ankiconnect respond (lit ''addNote'') (add_note_params c) w")
  from assms(3) A have ok: "\<not> isl r1" and rem: "remote w' = remote w1"
    by (auto simp: add_note_def split: sum.splits)
  from ok ankiconnect_res[OF A]
  have "\<not> reply_failed (fst (respond (remote w) (payload_of (lit ''addNote'') (add_note_params c))))"
    by (simp add: reply_failed_iff)
  from tag_keepingD1[OF assms(1) this assms(2)] ankiconnect_remote[OF A] rem
  show ?thesis by simp
qed

lemma established_add_or_update:
  assumes "tag_keeping respond sti" "stable_tag c \<in> set (tags c)"
    "add_or_update_basic_note respond sti c False w = (Inr u, w')"
  shows "finds respond sti (remote w') (stable_tag c)"
proof -
  obtain r1 w1 where A: "find_note_id_by_tag respond sti (stable_tag c) w = (r1, w1)"
    by (cases "find_note_id_by_tag respond sti (stable_tag c) w")
  show ?thesis
  proof (cases r1)
    case (Inl e)
    with assms(3) A show ?thesis by (auto simp: add_or_update_basic_note_def)
  next
    case (Inr found)
    show ?thesis
    proof (cases found)
      case None
      with assms(3) A Inr have "add_note respond c w1 = (Inr u, w')"
        by (auto simp: add_or_update_basic_note_def)
      from established_add_note[OF assms(1,2) this] show ?thesis .
    next
      case (Some n)
      with Inr find_result(1)[OF A]
      have "finds respond sti (remote w) (stable_tag c)"
        by (simp add: finds_def)
      from finds_add_or_update[OF assms(1) this assms(3)] show ?thesis .
    qed
  qed
qed

lemma established_add_or_update_all:
  "tag_keeping respond sti \<Longrightarrow> \<forall>c\<in>set cs. stable_tag c \<in> set (tags c) \<Longrightarrow>
   add_or_update_all respond sti False cs w = (Inr u, w') \<Longrightarrow>
   \<forall>c\<in>set cs. finds respond sti (remote w') (stable_tag c)"
proof (induction cs arbitrary: w)
  case Nil
  then show ?case by simp
next
  case (Cons c cs)
  obtain r1 w1 where A: "add_or_update_basic_note respond sti c False w = (r1, w1)"
    by (cases "add_or_update_basic_note respond sti c False w")
  show ?case
  proof (cases r1)
    case (Inl e)
    with Cons.prems(3) A show ?thesis by auto
  next
    case (Inr v)
    with Cons.prems(3) A have B: "add_or_update_all respond sti False cs w1 = (Inr u, w')" by auto
    from Cons.prems(2) have c: "stable_tag c \<in> set (tags c)"
      and cs: "\<forall>c\<in>set cs. stable_tag c \<in> set (tags c)" by auto
    from A Inr have "add_or_update_basic_note respond sti c False w = (Inr v, w1)" by simp
    from established_add_or_update[OF Cons.prems(1) c this]
    have "finds respond sti (remote w1) (stable_tag c)" .
    from finds_add_or_update_all[OF Cons.prems(1) this B]
    have "finds respond sti (remote w') (stable_tag c)" .
    with Cons.IH[OF Cons.prems(1) cs B] show ?thesis by simp
  qed
qed

lemma established_sync_cards:
  assumes "tag_keeping respond sti" "\<forall>c\<in>set cs. stable_tag c \<in> set (tags c)"
    "sync_cards respond sti False cs w = (Inr u, w')"
  shows "\<forall>c\<in>set cs. finds respond sti (remote w') (stable_tag c)"
proof -
  obtain r1 w1 where A: "ensure_decks respond (sort (remdups (map deck cs))) w = (r1, w1)"
    by (cases "ensure_decks respond (sort (remdups (map deck cs))) w")
  show ?thesis
  proof (cases r1)
    case (Inl e)
    with assms(3) A show ?thesis by (auto simp: sync_cards_def)
  next
    case (Inr v)
    with assms(3) A have "add_or_update_all respond sti False cs w1 = (Inr u, w')"
      by (auto simp: sync_cards_def)
    from established_add_or_update_all[OF assms(1,2) this] show ?thesis .
  qed
qed

lemma follows_refl: "follows w b w []"
  by (simp add: follows_def)

lemma follows_out: "follows w b w' f \<Longrightarrow> follows w b (w'\<lparr>out := x\<rparr>) f"
  by (simp add: follows_def)

lemma follows_out_left: "follows (w\<lparr>out := x\<rparr>) b w' f \<Longrightarrow> follows w b w' f"
  by (simp add: follows_def)

lemma follows_weaken: "follows w b w' f \<Longrightarrow> follows w False w' f"
  by (auto simp: follows_def)

lemma follows_stop:
  assumes "follows w False w' f1"
  shows "follows w False w' (f1 @ f2)"
proof -
  from assms[unfolded follows_def] obtain new k where n: "calls w' = calls w @ new"
    "map (\<lambda>c. action (fst c)) new = take k f1"
    by blast
  have "\<exists>j. take k f1 = take j (f1 @ f2)"
  proof (cases "k \<le> length f1")
    case True
    then have "take k (f1 @ f2) = take k f1" by simp
    then show ?thesis by metis
  next
    case False
    then have "take k f1 = f1" by simp
    moreover have "take (length f1) (f1 @ f2) = f1" by simp
    ultimately show ?thesis by metis
  qed
  then obtain j where "take k f1 = take j (f1 @ f2)" by blast
  with n have "calls w' = calls w @ new \<and> map (\<lambda>c. action (fst c)) new = take j (f1 @ f2) \<and>
      (False \<longrightarrow> map (\<lambda>c. action (fst c)) new = f1 @ f2)" by simp
  then show ?thesis unfolding follows_def by blast
qed

lemma follows_seq:
  assumes "follows w True w1 f1" "follows w1 b w2 f2"
  shows "follows w b w2 (f1 @ f2)"
proof -
  from assms(1)[unfolded follows_def] obtain n1 where n1: "calls w1 = calls w @ n1"
    "map (\<lambda>c. action (fst c)) n1 = f1"
    by blast
  from assms(2)[unfolded follows_def] obtain n2 k where n2: "calls w2 = calls w1 @ n2"
    "map (\<lambda>c. action (fst c)) n2 = take k f2" "b \<longrightarrow> map (\<lambda>c. action (fst c)) n2 = f2"
    by blast
  have c: "calls w2 = calls w @ (n1 @ n2)" using n1(1) n2(1) by simp
  have t: "map (\<lambda>c. action (fst c)) (n1 @ n2) = take (length f1 + k) (f1 @ f2)"
    using n1(2) n2(2) by simp
  have d: "b \<longrightarrow> map (\<lambda>c. action (fst c)) (n1 @ n2) = f1 @ f2"
    using n1(2) n2(3) by simp
  from c t d show ?thesis unfolding follows_def by blast
qed

lemma follows_ankiconnect:
  assumes "ankiconnect respond act ps w = (res, w')"
  shows "follows w True w' [act]"
proof -
  have "map (\<lambda>c. action (fst c)) [(payload_of act ps, fst (respond (remote w) (payload_of act ps)))] = [act]"
    by (simp add: action_payload_of)
  moreover have "[act] = take 1 [act]" by simp
  ultimately show ?thesis
    unfolding follows_def using ankiconnect_calls[OF assms] by (metis (no_types, lifting))
qed

lemma follows_ensure_deck:
  assumes "ensure_deck respond d w = (res, w')"
  shows "follows w True w' [lit ''createDeck'']"
proof -
  obtain r1 w1 where A: "ankiconnect respond (lit ''createDeck'') (JObj [(lit ''deck'', JStr d)]) w = (r1, w1)"
    by (cases "ankiconnect respond (lit ''createDeck'') (JObj [(lit ''deck'', JStr d)]) w")
  from assms A have "w' = w1" by (auto simp: ensure_deck_def split: sum.splits)
  with follows_ankiconnect[OF A] show ?thesis by simp
qed

lemma follows_find:
  assumes "find_note_id_by_tag respond sti tag w = (res, w')"
  shows "follows w True w' [lit ''findNotes'']"
proof -
  obtain r1 w1 where A: "ankiconnect respond (lit ''findNotes'') (find_request tag) w = (r1, w1)"
    by (cases "ankiconnect respond (lit ''findNotes'') (find_request tag) w")
  from assms A have "w' = w1" by (auto simp: find_note_id_by_tag_def split: sum.splits)
  with follows_ankiconnect[OF A] show ?thesis by simp
qed

lemma follows_update_note:
  assumes "update_note respond n c w = (res, w')"
  shows "follows w (\<not> isl res) w' [lit ''updateNoteFields'', lit ''addTags'']"
proof -
  obtain r1 w1 where A: "ankiconnect respond (lit ''updateNoteFields'') (update_params n c) w = (r1, w1)"
    by (cases "ankiconnect respond (lit ''updateNoteFields'') (update_params n c) w")
  note F1 = follows_ankiconnect[OF A]
  show ?thesis
  proof (cases r1)
    case (Inl e)
    with assms A have "w' = w1" "isl res" by (auto simp: update_note_def)
    with follows_stop[OF follows_weaken[OF F1], of "[lit ''addTags'']"] show ?thesis by simp
  next
    case (Inr v)
    obtain r2 w2 where B: "ankiconnect respond (lit ''addTags'') (add_tags_params n c) w1 = (r2, w2)"
      by (cases "ankiconnect respond (lit ''addTags'') (add_tags_params n c) w1")
    from follows_seq[OF F1 follows_ankiconnect[OF B]]
    have F2: "follows w True w2 [lit ''updateNoteFields'', lit ''addTags'']" by simp
    show ?thesis
    proof (cases r2)
      case (Inl e)
      with assms A B Inr have "w' = w2" by (auto simp: update_note_def)
      with F2 show ?thesis by (auto intro: follows_weaken simp: follows_def)
    next
      case r2: (Inr v2)
      with assms A B Inr
      have "w' = w2\<lparr>out := out w2 @ [LogUpd n (deck c) (stable_tag c)]\<rparr>"
        by (auto simp: update_note_def)
      with follows_out[OF F2] show ?thesis by (auto simp: follows_def)
    qed
  qed
qed

lemma follows_add_or_update_found:
  assumes "finds respond sti (remote w) (stable_tag c)"
    "add_or_update_basic_note respond sti c False w = (res, w')"
  shows "follows w (\<not> isl res) w' update_actions"
proof -
  obtain r1 w1 where A: "find_note_id_by_tag respond sti (stable_tag c) w = (r1, w1)"
    by (cases "find_note_id_by_tag respond sti (stable_tag c) w")
  from assms(1) find_result(1)[OF A] obtain n where r1: "r1 = Inr (Some n)"
    by (auto simp: finds_def split: sum.splits option.splits)
  with assms(2) A have B: "update_note respond n c w1 = (res, w')"
    by (auto simp: add_or_update_basic_note_def)
  from follows_seq[OF follows_find[OF A] follows_update_note[OF B]]
  show ?thesis by (simp add: update_actions_def)
qed

lemma follows_ensure_decks:
  "ensure_decks respond ds w = (res, w') \<Longrightarrow>
     follows w (\<not> isl res) w' (replicate (length ds) (lit ''createDeck''))"
proof (induction ds arbitrary: w)
  case Nil
  then show ?case by (auto simp: follows_refl)
next
  case (Cons d ds)
  obtain r1 w1 where A: "ensure_deck respond d w = (r1, w1)"
    by (cases "ensure_deck respond d w")
  note F1 = follows_ensure_deck[OF A]
  show ?case
  proof (cases r1)
    case (Inl e)
    with Cons.prems A have "w' = w1" "isl res" by auto
    with follows_stop[OF follows_weaken[OF F1], of "replicate (length ds) (lit ''createDeck'')"]
    show ?thesis by simp
  next
    case (Inr u)
    with Cons.prems A have "ensure_decks respond ds w1 = (res, w')" by auto
    from follows_seq[OF F1 Cons.IH[OF this]] show ?thesis by simp
  qed
qed

lemma follows_add_or_update_all_found:
  "tag_keeping respond sti \<Longrightarrow> \<forall>c\<in>set cs. finds respond sti (remote w) (stable_tag c) \<Longrightarrow>
   add_or_update_all respond sti False cs w = (res, w') \<Longrightarrow>
     follows w (\<not> isl res) w' (concat (map (\<lambda>c. update_actions) cs))"
proof (induction cs arbitrary: w)
  case Nil
  then show ?case by (auto simp: follows_refl)
next
  case (Cons c cs)
  obtain r1 w1 where A: "add_or_update_basic_note respond sti c False w = (r1, w1)"
    by (cases "add_or_update_basic_note respond sti c False w")
  from Cons.prems(2) have fc: "finds respond sti (remote w) (stable_tag c)" by simp
  note F1 = follows_add_or_update_found[OF fc A]
  show ?case
  proof (cases r1)
    case (Inl e)
    with Cons.prems(3) A have "w' = w1" "isl res" by auto
    with follows_stop[OF follows_weaken[OF F1], of "concat (map (\<lambda>c. update_actions) cs)"]
    show ?thesis by simp
  next
    case (Inr u)
    with Cons.prems(3) A have B: "add_or_update_all respond sti False cs w1 = (res, w')" by auto
    have "\<forall>c\<in>set cs. finds respond sti (remote w1) (stable_tag c)"
      using Cons.prems(2) finds_add_or_update[OF Cons.prems(1) _ A] by simp
    from Cons.IH[OF Cons.prems(1) this B] F1 Inr
    show ?thesis by (auto intro: follows_seq)
  qed
qed

lemma follows_sync_cards_found:
  assumes "tag_keeping respond sti" "\<forall>c\<in>set cs. finds respond sti (remote w) (stable_tag c)"
    "sync_cards respond sti False cs w = (res, w')"
  shows "follows w (\<not> isl res) w'
     (replicate (length (remdups (map deck cs))) (lit ''createDeck'') @
      concat (map (\<lambda>c. update_actions) cs))"
proof -
  obtain r1 w1 where A: "ensure_decks respond (sort (remdups (map deck cs))) w = (r1, w1)"
    by (cases "ensure_decks respond (sort (remdups (map deck cs))) w")
  from follows_ensure_decks[OF A]
  have F1: "follows w (\<not> isl r1) w1 (replicate (length (remdups (map deck cs))) (lit ''createDeck''))"
    by simp
  show ?thesis
  proof (cases r1)
    case (Inl e)
    with assms(3) A have "w' = w1" "isl res" by (auto simp: sync_cards_def)
    with follows_stop[OF follows_weaken[OF F1], of "concat (map (\<lambda>c. update_actions) cs)"]
    show ?thesis by simp
  next
    case (Inr u)
    with assms(3) A have B: "add_or_update_all respond sti False cs w1 = (res, w')"
      by (auto simp: sync_cards_def)
    have "\<forall>c\<in>set cs. finds respond sti (remote w1) (stable_tag c)"
      using assms(2) finds_ensure_decks[OF assms(1) _ A] by simp
    from follows_add_or_update_all_found[OF assms(1) this B] F1 Inr
    show ?thesis by (auto intro: follows_seq)
  qed
qed

lemma follows_new_actions:
  assumes "follows w b w' full"
  shows "calls w' = calls w @ new_calls w w'"
    and "a \<notin> set full \<Longrightarrow> a \<notin> set (new_actions w w')"
    and "b \<Longrightarrow> new_actions w w' = full"
proof -
  from assms[unfolded follows_def] obtain new k where n: "calls w' = calls w @ new"
    "map (\<lambda>c. action (fst c)) new = take k full" "b \<longrightarrow> map (\<lambda>c. action (fst c)) new = full"
    by blast
  have nc: "new_calls w w' = new" by (simp add: new_calls_def n(1))
  show "calls w' = calls w @ new_calls w w'" by (simp add: nc n(1))
  show "a \<notin> set full \<Longrightarrow> a \<notin> set (new_actions w w')"
    unfolding new_actions_def nc n(2) by (auto dest: in_set_takeD)
  show "b \<Longrightarrow> new_actions w w' = full"
    unfolding new_actions_def nc using n(3) by simp
qed

lemma extract_tags:
  assumes "extract_cards_from_markdown vr mp dk bt text = Inr cs" "c \<in> set cs"
  shows "stable_tag c \<in> set (tags c)"
proof -
  from extract_card_block[OF assms] obtain nb where "card_of_block vr mp dk bt c nb"
    by blast
  then have "tags c = bt @ [stable_tag c]"
    unfolding card_of_block_def by (metis card.select_convs(4))
  then show ?thesis by simp
qed

lemma collect_tags:
  "collect_cards vault files = Inr cs \<Longrightarrow> \<forall>c\<in>set cs. stable_tag c \<in> set (tags c)"
proof (induction files arbitrary: cs)
  case Nil
  then show ?case by simp
next
  case (Cons f files)
  obtain cls mp content where f: "f = (cls, mp, content)" by (cases f)
  from Cons.prems f obtain c1 c2 where
    e: "extract_cards_from_markdown vault mp (build_deck_name vault cls) [cls, path_name vault] content = Inr c1"
    and r: "collect_cards vault files = Inr c2" and cs: "cs = c1 @ c2"
    by (auto split: sum.splits)
  from extract_tags[OF e] Cons.IH[OF r] cs show ?case by auto
qed

lemma ok_result: "reply_result (ok_reply v) = Inr v"
  by (simp add: ok_reply_def reply_result_def dict_get_def lit_def)

lemma action_neqs:
  "lit ''createDeck'' \<noteq> lit ''findNotes''" "lit ''createDeck'' \<noteq> lit ''addNote''"
  "lit ''addNote'' \<noteq> lit ''findNotes''" "lit ''updateNoteFields'' \<noteq> lit ''findNotes''"
  "lit ''updateNoteFields'' \<noteq> lit ''addNote''" "lit ''addTags'' \<noteq> lit ''findNotes''"
  "lit ''addTags'' \<noteq> lit ''addNote''"
  by (simp_all add: lit_def)

lemma starts_tag: "startswith (lit ''tag:'' @ t) (lit ''tag:'')" "drop 4 (lit ''tag:'' @ t) = t"
  by (simp_all add: startswith_def lit_def)

lemma notes_find:
  "notes_respond ns (payload_of (lit ''findNotes'') (find_request t)) =
     (ok_reply (JList (map JInt (tagged ns t))), ns)"
proof -
  define q where "q = lit ''tag:'' @ t"
  have S: "startswith q (lit ''tag:'')" "drop 4 q = t"
    by (simp_all add: q_def startswith_def lit_def)
  have P: "params (payload_of (lit ''findNotes'') (find_request t)) = find_request t"
    by (simp add: payload_of_def find_request_def)
  have Q: "json_get (find_request t) (lit ''query'') = JStr q"
    by (simp add: find_request_def dict_get_def q_def)
  show ?thesis
    by (simp add: notes_respond_def action_payload_of P Q S tagged_def comp_def)
qed

lemma json_strs_map: "json_strs (JList (map JStr ts)) = ts"
  by (induction ts) (simp_all add: comp_def)

lemma notes_add:
  "notes_respond ns (payload_of (lit ''addNote'') (add_note_params c)) =
     (ok_reply (JInt (1 + int (length ns))), ns @ [(1 + int (length ns), tags c)])"
proof -
  have P: "params (payload_of (lit ''addNote'') (add_note_params c)) = add_note_params c"
    by (simp add: payload_of_def add_note_params_def)
  have Q: "json_get (json_get (add_note_params c) (lit ''note'')) (lit ''tags'') =
      JList (map JStr (tags c))"
    by (simp add: add_note_params_def dict_get_def)
  have R: "json_strs (json_get (json_get (add_note_params c) (lit ''note'')) (lit ''tags'')) = tags c"
    by (simp only: Q json_strs_map)
  show ?thesis
    by (simp add: notes_respond_def action_payload_of P R action_neqs)
qed

lemma notes_other:
  assumes "act = lit ''createDeck'' \<or> act = lit ''updateNoteFields'' \<or> act = lit ''addTags''"
  shows "notes_respond ns (payload_of act ps) = (ok_reply JNull, ns)"
  using assms
  by (auto simp: notes_respond_def action_payload_of action_neqs program_actions_def)

lemma notes_grow: "set ns \<subseteq> set (snd (notes_respond ns req))"
  by (auto simp: notes_respond_def split: json.splits)

lemma lookup_ids:
  "lookup sti (ok_reply (JList (map JInt ids))) = Inr (case ids of [] \<Rightarrow> None | i # _ \<Rightarrow> Some i)"
  by (cases ids) (simp_all add: lookup_def ok_result)

lemma finds_notes: "finds notes_respond sti ns t \<longleftrightarrow> tagged ns t \<noteq> []"
  by (simp only: finds_def notes_find fst_conv lookup_ids) (simp split: list.splits)

lemma tagged_mono: "set ns \<subseteq> set ns' \<Longrightarrow> tagged ns t \<noteq> [] \<Longrightarrow> tagged ns' t \<noteq> []"
  by (auto simp: tagged_def filter_empty_conv)

lemma tag_keeping_notes: "tag_keeping notes_respond sti"
  unfolding tag_keeping_def
proof (intro conjI allI impI)
  fix r :: note_store and c :: card and t
  assume "t \<in> set (tags c)"
  then show "finds notes_respond sti
      (snd (notes_respond r (payload_of (lit ''addNote'') (add_note_params c)))) t"
    by (simp add: notes_add finds_notes tagged_def)
next
  fix r :: note_store and req t
  assume "finds notes_respond sti r t"
  then show "finds notes_respond sti (snd (notes_respond r req)) t"
    using tagged_mono[OF notes_grow] by (simp add: finds_notes)
qed

lemma first_ids:
  "first_note_id sti (JList (map JInt ids)) = Inr (case ids of [] \<Rightarrow> None | i # _ \<Rightarrow> Some i)"
  by (cases ids) simp_all

lemma notes_find_ok:
  "\<exists>found w'. find_note_id_by_tag notes_respond sti t w = (Inr found, w')"
  by (simp add: find_note_id_by_tag_def ankiconnect_eq notes_find ok_result first_ids)

lemma notes_add_note_ok: "\<exists>w'. add_note notes_respond c w = (Inr (), w')"
  by (simp add: add_note_def ankiconnect_eq notes_add ok_result)

lemma notes_update_note_ok: "\<exists>w'. update_note notes_respond n c w = (Inr (), w')"
  by (simp add: update_note_def ankiconnect_eq notes_other ok_result)

lemma notes_ensure_deck_ok: "\<exists>w'. ensure_deck notes_respond d w = (Inr (), w')"
  by (simp add: ensure_deck_def ankiconnect_eq notes_other ok_result)

lemma notes_add_or_update_ok:
  "\<exists>w'. add_or_update_basic_note notes_respond sti c False w = (Inr (), w')"
proof -
  from notes_find_ok obtain found w1 where
    A: "find_note_id_by_tag notes_respond sti (stable_tag c) w = (Inr found, w1)" by blast
  show ?thesis
  proof (cases found)
    case None
    with A notes_add_note_ok[of c w1] show ?thesis
      by (auto simp: add_or_update_basic_note_def)
  next
    case (Some n)
    with A notes_update_note_ok[of n c w1] show ?thesis
      by (auto simp: add_or_update_basic_note_def)
  qed
qed

lemma notes_ensure_decks_ok: "\<exists>w'. ensure_decks notes_respond ds w = (Inr (), w')"
proof (induction ds arbitrary: w)
  case Nil
  show ?case by simp
next
  case (Cons d ds)
  from notes_ensure_deck_ok obtain w1 where "ensure_deck notes_respond d w = (Inr (), w1)" by blast
  with Cons.IH[of w1] show ?case by auto
qed

lemma notes_add_or_update_all_ok:
  "\<exists>w'. add_or_update_all notes_respond sti False cs w = (Inr (), w')"
proof (induction cs arbitrary: w)
  case Nil
  show ?case by simp
next
  case (Cons c cs)
  from notes_add_or_update_ok obtain w1 where
    "add_or_update_basic_note notes_respond sti c False w = (Inr (), w1)" by blast
  with Cons.IH[of w1] show ?case by auto
qed

lemma notes_sync_ok: "\<exists>w'. sync_cards notes_respond sti False cs w = (Inr (), w')"
proof -
  from notes_ensure_decks_ok obtain w1 where
    "ensure_decks notes_respond (sort (remdups (map deck cs))) w = (Inr (), w1)" by blast
  with notes_add_or_update_all_ok[of sti cs w1] show ?thesis
    by (auto simp: sync_cards_def)
qed

lemma notes_main_ok:
  assumes "collect_cards vault files = Inr cs"
  shows "fst (main_sync notes_respond sti vault files False w) = Inr ()"
proof -
  from notes_sync_ok obtain w' where
    "sync_cards notes_respond sti False cs (w\<lparr>out := out w @ [LogTotal (length cs)]\<rparr>) = (Inr (), w')"
    by blast
  with assms show ?thesis by (simp add: main_sync_def)
qed

section \<open>Properties of the scanner\<close>

text \<open>
  C9: every card that the scanner emits lists its own stable identifier among its tags:
  the tags are the base tags with the stable tag appended.
\<close>

theorem scanned_card_tags_hold_stable_tag:
  assumes "extract_cards_from_markdown vault_root md_path dk base_tags text = Inr cs"
    and "c \<in> set cs"
  shows "tags c = base_tags @ [stable_tag c] \<and> stable_tag c \<in> set (tags c)"
proof -
  from extract_card_block[OF assms] obtain nb where "card_of_block vault_root md_path dk base_tags c nb"
    by blast
  then have "tags c = base_tags @ [stable_tag c]"
    unfolding card_of_block_def by (metis card.select_convs(4))
  then show ?thesis by simp
qed

text \<open>
  Witness for C9: the second card of the example file.
\<close>

theorem scanned_card_tags_hold_stable_tag_witness:
  "tags ex_card3 = ex_base_tags @ [stable_tag ex_card3] \<and> stable_tag ex_card3 \<in> set (tags ex_card3)"
  using scanned_card_tags_hold_stable_tag[OF ex_extract, of ex_card3] by simp

text \<open>
  C4, as stated, fails: the number in a card's stable identifier is not the card's place
  in the produced sequence. In the example file the second question has no answer; the
  second card produced is the one of the third question and its identifier is made with
  the number 3, not 2.
\<close>

theorem cards_numbered_counterexample:
  "extract_cards_from_markdown ex_root ex_path ex_deck ex_base_tags ex_text =
     Inr [ex_card1, ex_card3] \<and>
   [ex_card1, ex_card3] ! 1 = ex_card3 \<and>
   stable_id_tag ex_root ex_path (front ex_card3) 2 = Inr (lit ''ankivert_id_3865a4bcb3b6'') \<and>
   stable_id_tag ex_root ex_path (front ex_card3) 3 = Inr (stable_tag ex_card3) \<and>
   stable_tag ex_card3 = lit ''ankivert_id_9662ef9f5076'' \<and>
   stable_tag ex_card3 \<noteq> lit ''ankivert_id_3865a4bcb3b6''"
proof -
  have F: "front ex_card3 = lit ''Capital of France?''"
    by (simp add: ex_card3_def)
  have S: "stable_tag ex_card3 = lit ''ankivert_id_9662ef9f5076''"
    by (simp add: ex_card3_def)
  have N: "lit ''ankivert_id_9662ef9f5076'' \<noteq> lit ''ankivert_id_3865a4bcb3b6''"
    by (simp add: lit_def)
  show ?thesis
    by (simp only: ex_extract F S ex_id_3_as_2 ex_id_3 nth_Cons_Suc nth_Cons_0 One_nat_def N
        simp_thms not_False_eq_True)
qed

text \<open>
  C4, amended: the cards come in the order of the file, and the number in a card's stable
  identifier is the position of its question marker among all question markers of the
  file, counted from 1, so a question without an answer uses up a number. The numbered
  blocks are the question lines \<open>filter is_question\<close> of the file paired with
  \<open>1, 2, \<dots>\<close>; the cards correspond, in order, to the blocks that have an answer.
  When every question of the file has an answer, the number is the card's place in the
  produced sequence.
\<close>

theorem cards_numbered_by_question_order:
  assumes "extract_cards_from_markdown vault_root md_path dk base_tags text = Inr cs"
  shows "list_all2
           (\<lambda>c nb. front c = question_text (fst (snd nb)) \<and>
                   stable_id_tag vault_root md_path (front c) (fst nb) = Inr (stable_tag c))
           cs (filter answered (numbered_blocks (splitlines text))) \<and>
         map (\<lambda>nb. fst (snd nb)) (numbered_blocks (splitlines text)) =
           filter is_question (splitlines text) \<and>
         map fst (numbered_blocks (splitlines text)) =
           [1..int (length (filter is_question (splitlines text)))] \<and>
         ((\<forall>nb\<in>set (numbered_blocks (splitlines text)). answered nb) \<longrightarrow>
            list_all2 (\<lambda>c n. stable_id_tag vault_root md_path (front c) n = Inr (stable_tag c))
              cs [1..int (length cs)])"
proof -
  let ?NB = "numbered_blocks (splitlines text)"
  have A: "list_all2
           (\<lambda>c nb. front c = question_text (fst (snd nb)) \<and>
                   stable_id_tag vault_root md_path (front c) (fst nb) = Inr (stable_tag c))
           cs (filter answered ?NB)"
  proof (rule list_all2_weaken[OF extract_all2[OF assms]])
    fix c nb
    assume cb: "card_of_block vault_root md_path dk base_tags c nb"
    then have "front c = question_text (fst (snd nb))"
      unfolding card_of_block_def by (metis card.select_convs(2))
    with cb show "front c = question_text (fst (snd nb)) \<and>
        stable_id_tag vault_root md_path (front c) (fst nb) = Inr (stable_tag c)"
      by (simp add: card_of_block_def)
  qed
  have B: "map (\<lambda>nb. fst (snd nb)) ?NB = filter is_question (splitlines text)"
    by (rule numbered_blocks_questions)
  have C: "map fst ?NB = [1..int (length (filter is_question (splitlines text)))]"
    by (rule numbered_blocks_numbers)
  have D: "(\<forall>nb\<in>set ?NB. answered nb) \<longrightarrow>
            list_all2 (\<lambda>c n. stable_id_tag vault_root md_path (front c) n = Inr (stable_tag c))
              cs [1..int (length cs)]"
  proof
    assume all: "\<forall>nb\<in>set ?NB. answered nb"
    then have F: "filter answered ?NB = ?NB" by simp
    from A have "list_all2 (\<lambda>c nb. stable_id_tag vault_root md_path (front c) (fst nb) = Inr (stable_tag c))
        cs ?NB"
      unfolding F by (rule list_all2_weaken) blast
    then have M: "list_all2 (\<lambda>c n. stable_id_tag vault_root md_path (front c) n = Inr (stable_tag c))
        cs (map fst ?NB)"
      by (simp add: list_all2_map2)
    from A have "length cs = length ?NB" unfolding F by (rule list_all2_lengthD)
    also have "\<dots> = length (map (\<lambda>nb. fst (snd nb)) ?NB)" by simp
    also have "\<dots> = length (filter is_question (splitlines text))" by (simp only: B)
    finally have "map fst ?NB = [1..int (length cs)]" by (simp only: C)
    with M show "list_all2 (\<lambda>c n. stable_id_tag vault_root md_path (front c) n = Inr (stable_tag c))
              cs [1..int (length cs)]" by simp
  qed
  from A B C D show ?thesis by (intro conjI)
qed

text \<open>
  Witness for the amended C4: the example file, where the questions 1 and 3 have answers
  and question 2 has none, and a file of one answered question.
\<close>

theorem cards_numbered_by_question_order_witness:
  "stable_id_tag ex_root ex_path (front ex_card1) 1 = Inr (stable_tag ex_card1) \<and>
   stable_id_tag ex_root ex_path (front ex_card3) 3 = Inr (stable_tag ex_card3) \<and>
   map fst (numbered_blocks (splitlines ex_text)) = [1, 2, 3] \<and>
   stable_id_tag ex_root ex_path (front ex_blank_card) 1 = Inr (stable_tag ex_blank_card)"
proof -
  have NB: "numbered_blocks (splitlines ex_text) =
     [(1, lit ''Q:: What is 2+2?'', [lit ''A:: 4'']),
      (2, lit ''Q:: Dropped'', []),
      (3, lit ''Q:: Capital of France?'', [lit ''note'', lit ''A::'', lit ''Paris'', lit ''A:: (city)''])]"
    by (simp add: numbered_blocks_def ex_blocks number_from_Cons number_from_Nil)
  have F: "filter answered (numbered_blocks (splitlines ex_text)) =
     [(1, lit ''Q:: What is 2+2?'', [lit ''A:: 4'']),
      (3, lit ''Q:: Capital of France?'', [lit ''note'', lit ''A::'', lit ''Paris'', lit ''A:: (city)''])]"
    by (simp add: NB answered_def ex_answer_1 ex_answer_2 ex_answer_3)
  from cards_numbered_by_question_order[OF ex_extract, unfolded F]
  have one: "stable_id_tag ex_root ex_path (front ex_card1) 1 = Inr (stable_tag ex_card1) \<and>
   stable_id_tag ex_root ex_path (front ex_card3) 3 = Inr (stable_tag ex_card3) \<and>
   map fst (numbered_blocks (splitlines ex_text)) = [1, 2, 3]"
    by (auto simp: NB)
  have all: "\<forall>nb\<in>set (numbered_blocks (splitlines (lit ''Q:: x\<newline>A::\<newline>\<newline>''))). answered nb"
    by (simp only: ex_blank_blocks list.set ball_simps ex_blank_answered simp_thms)
  from cards_numbered_by_question_order[OF ex_blank_extract] all
  have "list_all2 (\<lambda>c n. stable_id_tag ex_root ex_path (front c) n = Inr (stable_tag c))
      [ex_blank_card] [1..int (length [ex_blank_card])]"
    by blast
  then have "stable_id_tag ex_root ex_path (front ex_blank_card) 1 = Inr (stable_tag ex_blank_card)"
    by (simp add: upto.simps)
  with one show ?thesis by (intro conjI) simp_all
qed

text \<open>
  C10: a question line, an answer marker with nothing after it and a blank line, or a
  line of white space only, give a card whose answer text is empty.
\<close>

theorem blank_answer_line_gives_empty_answer:
  "extract_cards_from_markdown ex_root ex_path ex_deck ex_base_tags
     (lit ''Q:: x\<newline>A::\<newline>\<newline>'') = Inr [ex_blank_card] \<and>
   extract_cards_from_markdown ex_root ex_path ex_deck ex_base_tags
     (lit ''Q:: x\<newline>A::\<newline>   \<newline>'') = Inr [ex_blank_card] \<and>
   back_txt ex_blank_card = []"
  using ex_id_x by (simp add: scan_eval ex_blank_card_def)

text \<open>
  C6, as stated, fails: a later line of the block that starts with the answer marker is
  not taken whole, its marker is cut off. In the example file the third block gives the
  answer \<open>Paris\<newline>(city)\<close>, while the lines after the first answer marker
  joined in order are \<open>Paris\<newline>A:: (city)\<close>.
\<close>

theorem answer_text_counterexample:
  "extract_cards_from_markdown ex_root ex_path ex_deck ex_base_tags ex_text = Inr [ex_card1, ex_card3] \<and>
   snd (blocks (splitlines ex_text)) ! 2 =
     (lit ''Q:: Capital of France?'', [lit ''note'', lit ''A::'', lit ''Paris'', lit ''A:: (city)'']) \<and>
   back_txt ex_card3 = lit ''Paris\<newline>(city)'' \<and>
   claimed_answer [lit ''note'', lit ''A::'', lit ''Paris'', lit ''A:: (city)''] =
     lit ''\<newline>Paris\<newline>A:: (city)'' \<and>
   back_txt ex_card3 \<noteq> strip (claimed_answer [lit ''note'', lit ''A::'', lit ''Paris'', lit ''A:: (city)''])"
proof -
  have C: "claimed_answer [lit ''note'', lit ''A::'', lit ''Paris'', lit ''A:: (city)''] =
     lit ''\<newline>Paris\<newline>A:: (city)''"
    by (simp add: claimed_answer_def is_answer_def startswith_def lit_def)
  have S: "strip (lit ''\<newline>Paris\<newline>A:: (city)'') = lit ''Paris\<newline>A:: (city)''"
    by (simp add: strip_def lstrip_def rstrip_def is_space_def lit_def)
  have B: "back_txt ex_card3 = lit ''Paris\<newline>(city)''"
    by (simp add: ex_card3_def)
  have N: "lit ''Paris\<newline>(city)'' \<noteq> lit ''Paris\<newline>A:: (city)''"
    by (simp add: lit_def)
  show ?thesis
    by (simp only: ex_extract ex_blocks C S B) (simp add: N)
qed

text \<open>
  C6, amended: the lines of the file split into the lines before the first question and
  the blocks, each a question line with the lines up to the next question line or the end
  of the input. The answer text of a card is made from the lines of its block from the
  first answer marker on: a line with the answer marker gives the text after the marker
  without leading white space, or nothing if that is empty; any other line gives itself.
  These are joined by newlines and the result is stripped of white space at both ends.
\<close>

theorem answer_text_of_block:
  assumes "extract_cards_from_markdown vault_root md_path dk base_tags text = Inr cs"
  shows "list_all2
           (\<lambda>c nb. back_txt c =
              strip (join (lit ''\<newline>'')
                (concat (map piece (dropWhile (\<lambda>l. \<not> is_answer l) (snd (snd nb)))))))
           cs (filter answered (numbered_blocks (splitlines text))) \<and>
         fst (blocks (splitlines text)) @
           concat (map (\<lambda>nb. fst (snd nb) # snd (snd nb)) (numbered_blocks (splitlines text))) =
           splitlines text \<and>
         (\<forall>nb\<in>set (numbered_blocks (splitlines text)).
            is_question (fst (snd nb)) \<and> (\<forall>l\<in>set (snd (snd nb)). \<not> is_question l))"
proof -
  have "list_all2
           (\<lambda>c nb. back_txt c =
              strip (join (lit ''\<newline>'')
                (concat (map piece (dropWhile (\<lambda>l. \<not> is_answer l) (snd (snd nb)))))))
           cs (filter answered (numbered_blocks (splitlines text)))"
  proof (rule list_all2_weaken[OF extract_all2[OF assms]])
    fix c nb
    assume "card_of_block vault_root md_path dk base_tags c nb"
    then have "back_txt c = strip (join (lit ''\<newline>'') (answer_lines (snd (snd nb))))"
      unfolding card_of_block_def by (metis card.select_convs(3))
    then show "back_txt c =
              strip (join (lit ''\<newline>'')
                (concat (map piece (dropWhile (\<lambda>l. \<not> is_answer l) (snd (snd nb))))))"
      by (simp add: answer_lines_def collected_def)
  qed
  moreover note numbered_blocks_partition[of "splitlines text"]
  moreover have "\<forall>nb\<in>set (numbered_blocks (splitlines text)).
            is_question (fst (snd nb)) \<and> (\<forall>l\<in>set (snd (snd nb)). \<not> is_question l)"
    using numbered_blocks_body by blast
  ultimately show ?thesis by blast
qed

text \<open>
  Witness for the amended C6: the two cards of the example file.
\<close>

theorem answer_text_of_block_witness:
  "back_txt ex_card1 = strip (join (lit ''\<newline>'') (concat (map piece [lit ''A:: 4'']))) \<and>
   back_txt ex_card3 =
     strip (join (lit ''\<newline>'') (concat (map piece [lit ''A::'', lit ''Paris'', lit ''A:: (city)'']))) \<and>
   piece (lit ''A::'') = [] \<and> piece (lit ''Paris'') = [lit ''Paris''] \<and>
   piece (lit ''A:: (city)'') = [lit ''(city)'']"
proof -
  have NB: "numbered_blocks (splitlines ex_text) =
     [(1, lit ''Q:: What is 2+2?'', [lit ''A:: 4'']),
      (2, lit ''Q:: Dropped'', []),
      (3, lit ''Q:: Capital of France?'', [lit ''note'', lit ''A::'', lit ''Paris'', lit ''A:: (city)''])]"
    by (simp add: numbered_blocks_def ex_blocks number_from_Cons number_from_Nil)
  have F: "filter answered (numbered_blocks (splitlines ex_text)) =
     [(1, lit ''Q:: What is 2+2?'', [lit ''A:: 4'']),
      (3, lit ''Q:: Capital of France?'', [lit ''note'', lit ''A::'', lit ''Paris'', lit ''A:: (city)''])]"
    by (simp add: NB answered_def ex_answer_1 ex_answer_2 ex_answer_3)
  have D1: "is_answer (lit ''A:: 4'')"
    by (simp add: is_answer_def startswith_def lit_def)
  have D3: "\<not> is_answer (lit ''note'')" "is_answer (lit ''A::'')"
    by (simp_all add: is_answer_def startswith_def lit_def)
  have P: "piece (lit ''A::'') = [] \<and> piece (lit ''Paris'') = [lit ''Paris''] \<and>
   piece (lit ''A:: (city)'') = [lit ''(city)'']"
    by (simp add: piece_def is_answer_def answer_rest_def startswith_def lstrip_def is_space_def lit_def)
  from answer_text_of_block[OF ex_extract, unfolded F]
  have "back_txt ex_card1 = strip (join (lit ''\<newline>'') (concat (map piece [lit ''A:: 4'']))) \<and>
   back_txt ex_card3 =
     strip (join (lit ''\<newline>'') (concat (map piece [lit ''A::'', lit ''Paris'', lit ''A:: (city)''])))"
    by (auto simp: D1 D3)
  with P show ?thesis by blast
qed

text \<open>
  C3: cards missing an answer are to be dropped, and the scanner does drop a question
  whose block collects no answer line. It misses the answer that is white space only: the
  guard of the flush tests the list of collected lines, not the answer text. For a
  question, an answer marker followed by a space, a line of one space and a bare answer
  marker, a card with an empty answer text is emitted; the same white space on the marker
  line alone gives no card.
\<close>

theorem blank_answer_card_not_dropped:
  "extract_cards_from_markdown ex_root ex_path ex_deck ex_base_tags
     (lit ''Q:: x\<newline>A:: \<newline> \<newline>A::\<newline>'') = Inr [ex_blank_card] \<and>
   back_txt ex_blank_card = [] \<and>
   extract_cards_from_markdown ex_root ex_path ex_deck ex_base_tags
     (lit ''Q:: x\<newline>A::  \<newline>'') = Inr []"
  using ex_id_x by (simp add: scan_eval ex_blank_card_def)

section \<open>Properties of the sync command\<close>


text \<open>
  C8, as stated, fails: \<open>raise_for_status\<close> raises for the status codes 400 to 599
  only. A remote that answers every request with the status 302 and a JSON body without
  an error lets every call return, and the whole run ends normally.
\<close>

theorem non_2xx_reply_counterexample:
  "non_2xx moved_reply \<and>
   fst (ankiconnect moved_remote (lit ''createDeck'') (JObj [(lit ''deck'', JStr ex_deck)]) (w0 ())) =
     Inr JNull \<and>
   fst (main_sync moved_remote no_str_to_int ex_root ex_files False (w0 ())) = Inr () \<and>
   map snd (calls (snd (main_sync moved_remote no_str_to_int ex_root ex_files False (w0 ())))) =
     [moved_reply, moved_reply, moved_reply, moved_reply, moved_reply]"
proof -
  have "non_2xx moved_reply" by (simp add: non_2xx_def moved_reply_def)
  moreover have "fst (ankiconnect moved_remote (lit ''createDeck'')
      (JObj [(lit ''deck'', JStr ex_deck)]) (w0 ())) = Inr JNull"
    by (simp add: ankiconnect_moved)
  ultimately show ?thesis using moved_run by (intro conjI) simp_all
qed

text \<open>
  C8, amended: a call fails when there is no reply, when the status code is from 400 to
  599, when the body is not a JSON object, or when its \<open>error\<close> field counts as true.
  \<open>ankiconnect\<close> raises exactly for the failed calls, and a failed call ends the run: it
  is the last call issued and the run ends with an exception.
\<close>

theorem failed_call_ends_run:
  "(isl (fst (ankiconnect respond act ps w)) \<longleftrightarrow>
      reply_failed (fst (respond (remote w) (payload_of act ps)))) \<and>
   (main_sync respond str_to_int vault files dry_run w = (res, w') \<longrightarrow>
      calls w' = calls w @ new_calls w w' \<and>
      (\<forall>i<length (new_calls w w'). reply_failed (snd (new_calls w w' ! i)) \<longrightarrow>
         isl res \<and> Suc i = length (new_calls w w')))"
proof (intro conjI impI)
  show "isl (fst (ankiconnect respond act ps w)) \<longleftrightarrow>
      reply_failed (fst (respond (remote w) (payload_of act ps)))"
    by (simp add: ankiconnect_eq reply_failed_iff)
next
  assume "main_sync respond str_to_int vault files dry_run w = (res, w')"
  from run_ok_index[OF run_ok_main_sync[OF this]]
  show "calls w' = calls w @ new_calls w w'" by simp
next
  assume "main_sync respond str_to_int vault files dry_run w = (res, w')"
  from run_ok_index[OF run_ok_main_sync[OF this]]
  show "\<forall>i<length (new_calls w w'). reply_failed (snd (new_calls w w' ! i)) \<longrightarrow>
         isl res \<and> Suc i = length (new_calls w w')" by simp
qed

text \<open>
  Witness for the amended C8: a remote that answers the status 500; the run ends with
  \<open>HTTPError\<close> after its first call.
\<close>

theorem failed_call_ends_run_witness:
  "reply_failed (Reply 500 None) \<and>
   isl (fst (ankiconnect broken_remote (lit ''createDeck'') (JObj [(lit ''deck'', JStr ex_deck)]) (w0 ()))) \<and>
   main_sync broken_remote no_str_to_int ex_root ex_files False (w0 ()) =
     (Inl (HTTPError 500),
      \<lparr>remote = (),
       calls = [(payload_of (lit ''createDeck'') (JObj [(lit ''deck'', JStr ex_deck)]), Reply 500 None)],
       out = [LogTotal 2]\<rparr>) \<and>
   isl (Inl (HTTPError 500) :: error + unit) \<and>
   new_calls (w0 ())
     \<lparr>remote = (),
      calls = [(payload_of (lit ''createDeck'') (JObj [(lit ''deck'', JStr ex_deck)]), Reply 500 None)],
      out = [LogTotal 2]\<rparr> =
     [(payload_of (lit ''createDeck'') (JObj [(lit ''deck'', JStr ex_deck)]), Reply 500 None)]"
proof -
  have F: "reply_failed (Reply 500 None)" by (simp add: reply_failed_def)
  have R: "fst (broken_remote (remote (w0 ()))
      (payload_of (lit ''createDeck'') (JObj [(lit ''deck'', JStr ex_deck)]))) = Reply 500 None"
    by (simp add: broken_remote_def)
  note T = failed_call_ends_run[of broken_remote "lit ''createDeck''"
      "JObj [(lit ''deck'', JStr ex_deck)]" "w0 ()" no_str_to_int ex_root ex_files False
      "Inl (HTTPError 500)"
      "\<lparr>remote = (),
       calls = [(payload_of (lit ''createDeck'') (JObj [(lit ''deck'', JStr ex_deck)]), Reply 500 None)],
       out = [LogTotal 2]\<rparr>"]
  from T F R have I: "isl (fst (ankiconnect broken_remote (lit ''createDeck'')
      (JObj [(lit ''deck'', JStr ex_deck)]) (w0 ())))"
    by simp
  have N: "new_calls (w0 ())
     \<lparr>remote = (),
      calls = [(payload_of (lit ''createDeck'') (JObj [(lit ''deck'', JStr ex_deck)]), Reply 500 None)],
      out = [LogTotal 2]\<rparr> =
     [(payload_of (lit ''createDeck'') (JObj [(lit ''deck'', JStr ex_deck)]), Reply 500 None)]"
    by (simp add: new_calls_def w0_def)
  from T broken_run N F have "isl (Inl (HTTPError 500) :: error + unit)"
    by simp
  with F I broken_run N show ?thesis by (intro conjI)
qed

text \<open>
  C2: a second run of the sync command on unchanged files, from the world that a first,
  completed run left, creates no note. The remote is any application that keeps tags
  (\<open>tag_keeping\<close>). After the first run the search for the stable tag of every card
  finds a note; the second run issues no \<open>addNote\<close> call, whether it completes or a
  call fails; and if it completes, its calls are one \<open>createDeck\<close> for each deck and,
  for each card in order, the lookup \<open>findNotes\<close> followed by the two calls of the
  update branch.
\<close>

theorem resync_creates_nothing:
  assumes "tag_keeping respond str_to_int"
    and "collect_cards vault files = Inr all_cards"
    and "main_sync respond str_to_int vault files False w = (Inr (), w1)"
    and "main_sync respond str_to_int vault files False w1 = (res, w2)"
  shows "(\<forall>c\<in>set all_cards. finds respond str_to_int (remote w1) (stable_tag c)) \<and>
         calls w2 = calls w1 @ new_calls w1 w2 \<and>
         lit ''addNote'' \<notin> set (new_actions w1 w2) \<and>
         (res = Inr () \<longrightarrow>
            new_actions w1 w2 =
              replicate (length (remdups (map deck all_cards))) (lit ''createDeck'') @
              concat (map (\<lambda>c. update_actions) all_cards))"
proof -
  let ?full = "replicate (length (remdups (map deck all_cards))) (lit ''createDeck'') @
              concat (map (\<lambda>c. update_actions) all_cards)"
  from assms(2,3) have first: "sync_cards respond str_to_int False all_cards
      (w\<lparr>out := out w @ [LogTotal (length all_cards)]\<rparr>) = (Inr (), w1)"
    by (simp add: main_sync_def)
  from established_sync_cards[OF assms(1) collect_tags[OF assms(2)] first]
  have found: "\<forall>c\<in>set all_cards. finds respond str_to_int (remote w1) (stable_tag c)" .
  from assms(2,4) have second: "sync_cards respond str_to_int False all_cards
      (w1\<lparr>out := out w1 @ [LogTotal (length all_cards)]\<rparr>) = (res, w2)"
    by (simp add: main_sync_def)
  have "\<forall>c\<in>set all_cards. finds respond str_to_int
      (remote (w1\<lparr>out := out w1 @ [LogTotal (length all_cards)]\<rparr>)) (stable_tag c)"
    using found by simp
  from follows_sync_cards_found[OF assms(1) this second]
  have F: "follows w1 (\<not> isl res) w2 ?full" by (rule follows_out_left)
  have no: "lit ''addNote'' \<notin> set ?full"
    by (auto simp: update_actions_def lit_def)
  have "res = Inr () \<longrightarrow> new_actions w1 w2 = ?full"
    using follows_new_actions(3)[OF F] by auto
  with found follows_new_actions(1)[OF F] follows_new_actions(2)[OF F no]
  show ?thesis by blast
qed

text \<open>
  Witness for C2: two runs on the example file against the small application that keeps
  tags, from an empty collection.
\<close>

theorem resync_creates_nothing_witness:
  "fst (main_sync notes_respond no_str_to_int ex_root ex_files False (w0 [])) = Inr () \<and>
   fst (main_sync notes_respond no_str_to_int ex_root ex_files False ex_w1) = Inr () \<and>
   finds notes_respond no_str_to_int (remote ex_w1) (stable_tag ex_card1) \<and>
   finds notes_respond no_str_to_int (remote ex_w1) (stable_tag ex_card3) \<and>
   calls ex_w2 = calls ex_w1 @ new_calls ex_w1 ex_w2 \<and>
   new_actions ex_w1 ex_w2 =
     [lit ''createDeck'', lit ''findNotes'', lit ''updateNoteFields'', lit ''addTags'',
      lit ''findNotes'', lit ''updateNoteFields'', lit ''addTags'']"
proof -
  have one: "main_sync notes_respond no_str_to_int ex_root ex_files False (w0 []) = (Inr (), ex_w1)"
    using notes_main_ok[OF ex_collect, of no_str_to_int "w0 []"]
    by (simp add: ex_w1_def prod_eq_iff)
  have two: "main_sync notes_respond no_str_to_int ex_root ex_files False ex_w1 = (Inr (), ex_w2)"
    using notes_main_ok[OF ex_collect, of no_str_to_int ex_w1]
    by (simp add: ex_w2_def prod_eq_iff)
  note T = resync_creates_nothing[OF tag_keeping_notes ex_collect one two]
  from T have F: "finds notes_respond no_str_to_int (remote ex_w1) (stable_tag ex_card1)"
    "finds notes_respond no_str_to_int (remote ex_w1) (stable_tag ex_card3)"
    by simp_all
  from T have C: "calls ex_w2 = calls ex_w1 @ new_calls ex_w1 ex_w2" by blast
  from T have "new_actions ex_w1 ex_w2 =
      replicate (length (remdups (map deck [ex_card1, ex_card3]))) (lit ''createDeck'') @
      concat (map (\<lambda>c. update_actions) [ex_card1, ex_card3])"
    by blast
  then have A: "new_actions ex_w1 ex_w2 =
     [lit ''createDeck'', lit ''findNotes'', lit ''updateNoteFields'', lit ''addTags'',
      lit ''findNotes'', lit ''updateNoteFields'', lit ''addTags'']"
    by (simp add: ex_deck_1 ex_deck_3 update_actions_def)
  from one two F C A show ?thesis by simp
qed

end
